theory Spec2Isabelle
  imports Main
begin

section \<open>Values of the nested structures\<close>

text \<open>
  The program \<^verbatim>\<open>stat_boards.py\<close> is Python 2 code (it uses \<^verbatim>\<open>reduce\<close>,
  \<^verbatim>\<open>raw_input\<close>, adds a list to the result of \<^verbatim>\<open>zip\<close> and assigns the
  result of \<^verbatim>\<open>map\<close> as a list).  The values it traverses are built from
  \<^verbatim>\<open>None\<close>, booleans, integers, byte strings, lists, tuples, dictionaries and
  sets.  A dictionary and a set are kept as lists in their native iteration
  order; dictionary keys are integers or strings.

  Lists are the only objects the program ever mutates (\<^verbatim>\<open>col[i] = ...\<close> in
  \<^verbatim>\<open>tablefy\<close>), so a list carries its object identity: \<open>PList (Some a) xs\<close> is the
  list object \<open>a\<close> of the caller's structure, holding \<open>xs\<close>; \<open>PList None xs\<close> is a
  list freshly built by the program, which nothing else refers to.  Passing a
  value that contains \<open>PList (Some a) xs\<close> passes a reference to the object \<open>a\<close>.
  In a structure handed to the program, different list objects carry
  different numbers and the keys of a dictionary are distinct.
\<close>

datatype pykey = KInt int | KStr string

datatype pyval =
    PNone
  | PBool bool
  | PInt int
  | PStr string
  | PList "nat option" "pyval list"
  | PTuple "pyval list"
  | PDict "(pykey \<times> pyval) list"
  | PSet "pyval list"

datatype error =
    TypeError | KeyError | IndexError | AssertionError | AttributeError

fun key_val :: "pykey \<Rightarrow> pyval" where
  "key_val (KInt i) = PInt i"
| "key_val (KStr s) = PStr s"

text \<open>\<^verbatim>\<open>isinstance(x, dict)\<close> and, in Python 2, \<^verbatim>\<open>hasattr(x, '__iter__')\<close>: lists,
  tuples, dictionaries and sets have the attribute, strings and numbers do not.\<close>

fun is_dict :: "pyval \<Rightarrow> bool" where
  "is_dict (PDict kvs) = True"
| "is_dict v = False"

fun has_iter :: "pyval \<Rightarrow> bool" where
  "has_iter (PList t xs) = True"
| "has_iter (PTuple xs) = True"
| "has_iter (PDict kvs) = True"
| "has_iter (PSet xs) = True"
| "has_iter v = False"

text \<open>\<^verbatim>\<open>len(x)\<close>; a \<^verbatim>\<open>TypeError\<close> for \<^verbatim>\<open>None\<close> and numbers.\<close>

fun py_len :: "pyval \<Rightarrow> error + nat" where
  "py_len (PStr s) = Inr (length s)"
| "py_len (PList t xs) = Inr (length xs)"
| "py_len (PTuple xs) = Inr (length xs)"
| "py_len (PDict kvs) = Inr (length kvs)"
| "py_len (PSet xs) = Inr (length xs)"
| "py_len v = Inl TypeError"

text \<open>Indexing a sequence of length \<open>n\<close> with an integer: negative indices count
  from the end, anything out of range is an \<^verbatim>\<open>IndexError\<close>.\<close>

definition seq_index :: "'a list \<Rightarrow> int \<Rightarrow> error + 'a" where
  "seq_index xs i =
     (if 0 \<le> i \<and> i < int (length xs) then Inr (xs ! nat i)
      else if i < 0 \<and> - int (length xs) \<le> i then Inr (xs ! nat (int (length xs) + i))
      else Inl IndexError)"

text \<open>\<^verbatim>\<open>container[key]\<close>.\<close>

fun py_getitem :: "pyval \<Rightarrow> pykey \<Rightarrow> error + pyval" where
  "py_getitem (PList t xs) (KInt i) = seq_index xs i"
| "py_getitem (PList t xs) (KStr s) = Inl TypeError"
| "py_getitem (PTuple xs) (KInt i) = seq_index xs i"
| "py_getitem (PTuple xs) (KStr s) = Inl TypeError"
| "py_getitem (PStr s) (KInt i) =
     (case seq_index s i of Inl e \<Rightarrow> Inl e | Inr c \<Rightarrow> Inr (PStr [c]))"
| "py_getitem (PStr s) (KStr k) = Inl TypeError"
| "py_getitem (PDict kvs) k =
     (case map_of kvs k of None \<Rightarrow> Inl KeyError | Some v \<Rightarrow> Inr v)"
| "py_getitem v k = Inl TypeError"

section \<open>Parsing a keystring\<close>

text \<open>\<^verbatim>\<open>s.split(d)\<close> for a one-character delimiter: the result is never empty.\<close>

fun split_on :: "char \<Rightarrow> string \<Rightarrow> string list" where
  "split_on d [] = [[]]"
| "split_on d (c # cs) =
     (if c = d then [] # split_on d cs
      else (c # hd (split_on d cs)) # tl (split_on d cs))"

text \<open>\<^verbatim>\<open>s.rstrip(':')\<close> removes every trailing colon.\<close>

definition rstrip_colons :: "string \<Rightarrow> string" where
  "rstrip_colons s = rev (dropWhile (\<lambda>c. c = CHR '':'') (rev s))"

definition is_digit :: "char \<Rightarrow> bool" where
  "is_digit c = (c \<in> set ''0123456789'')"

text \<open>\<^verbatim>\<open>s.isdigit()\<close>: non-empty and digits only.\<close>

definition isdigit :: "string \<Rightarrow> bool" where
  "isdigit s = (s \<noteq> [] \<and> list_all is_digit s)"

definition digit_val :: "char \<Rightarrow> int" where
  "digit_val c = int (of_char c) - 48"

text \<open>\<^verbatim>\<open>int(s)\<close> on a string of digits.\<close>

definition int_of_digits :: "string \<Rightarrow> int" where
  "int_of_digits s = foldl (\<lambda>a c. 10 * a + digit_val c) 0 s"

text \<open>The loop of \<^verbatim>\<open>access\<close> that turns digit segments into integers.\<close>

definition coerce_segment :: "string \<Rightarrow> pykey" where
  "coerce_segment s = (if isdigit s then KInt (int_of_digits s) else KStr s)"

definition key_sequence :: "string \<Rightarrow> pykey list" where
  "key_sequence keystring =
     map coerce_segment (split_on CHR '':'' (rstrip_colons keystring))"

text \<open>The keystring that writes the given segments with a colon between
  them (\<^verbatim>\<open>':'.join(segs)\<close>); it states what the parser is expected to undo.\<close>

fun join_colon :: "string list \<Rightarrow> string" where
  "join_colon [] = []"
| "join_colon [s] = s"
| "join_colon (s # t # ss) = s @ CHR '':'' # join_colon (t # ss)"

section \<open>access\<close>

text \<open>Membership test of the last segment: \<^verbatim>\<open>key[0] < len(container)\<close>.  In
  Python 2 a string is never smaller than an integer.\<close>

fun key_lt_len :: "pykey \<Rightarrow> nat \<Rightarrow> bool" where
  "key_lt_len (KInt i) n = (i < int n)"
| "key_lt_len (KStr s) n = False"

text \<open>\<^verbatim>\<open>key[0] in container\<close> for a dictionary.\<close>

fun key_in_dict :: "pykey \<Rightarrow> pyval \<Rightarrow> bool" where
  "key_in_dict k (PDict kvs) = (map_of kvs k \<noteq> None)"
| "key_in_dict k v = False"

text \<open>The number \<^verbatim>\<open>len(x)\<close> returns for a value that has a length.\<close>

definition len_of :: "pyval \<Rightarrow> nat" where
  "len_of v = (case py_len v of Inr n \<Rightarrow> n | Inl e \<Rightarrow> 0)"

text \<open>What \<^verbatim>\<open>for item in container\<close> visits when the container has
  \<^verbatim>\<open>__iter__\<close>: the elements of a list, tuple or set, the keys of a
  dictionary.\<close>

fun iter_items :: "pyval \<Rightarrow> pyval list" where
  "iter_items (PList t xs) = xs"
| "iter_items (PTuple xs) = xs"
| "iter_items (PSet xs) = xs"
| "iter_items (PDict kvs) = map (\<lambda>kv. key_val (fst kv)) kvs"
| "iter_items v = []"

text \<open>\<^verbatim>\<open>container[k]\<close> for every \<^verbatim>\<open>k in container\<close>, in iteration order.\<close>

definition dict_values :: "(pykey \<times> pyval) list \<Rightarrow> pyval list" where
  "dict_values kvs = map (\<lambda>k. the (map_of kvs k)) (map fst kvs)"

text \<open>
  The inner function \<^verbatim>\<open>use_key(key, container)\<close>.  \<^verbatim>\<open>key[0]\<close> on an empty
  key list raises \<^verbatim>\<open>IndexError\<close>.  In the wildcard case the dictionary branch
  looks at \<^verbatim>\<open>len(key) > 1\<close>, the branch for the other iterables always
  recurses with \<^verbatim>\<open>key[1:]\<close>; a container that is neither is skipped and the
  empty \<^verbatim>\<open>items\<close> list is returned.
\<close>

fun use_key :: "pykey list \<Rightarrow> pyval \<Rightarrow> error + pyval"
  and use_key_each :: "pykey list \<Rightarrow> pyval list \<Rightarrow> error + pyval list" where
  "use_key [] container = Inl IndexError"
| "use_key (k # ks) container =
     (if k = KStr [] then
        (case container of
           PDict kvs \<Rightarrow>
             (case (if ks \<noteq> []
                    then use_key_each ks (dict_values kvs)
                    else Inr (dict_values kvs)) of
                Inl e \<Rightarrow> Inl e
              | Inr items \<Rightarrow> Inr (PList None items))
         | _ \<Rightarrow>
             (if has_iter container then
                (case use_key_each ks (iter_items container) of
                   Inl e \<Rightarrow> Inl e
                 | Inr items \<Rightarrow> Inr (PList None items))
              else Inr (PList None [])))
      else if ks \<noteq> [] then
        (case py_getitem container k of
           Inl e \<Rightarrow> Inl e
         | Inr v \<Rightarrow> use_key ks v)
      else
        (if (is_dict container \<and> key_in_dict k container)
            \<or> (has_iter container \<and> key_lt_len k (len_of container))
         then py_getitem container k
         else Inr PNone))"
| "use_key_each ks [] = Inr []"
| "use_key_each ks (x # xs) =
     (case use_key ks x of
        Inl e \<Rightarrow> Inl e
      | Inr v \<Rightarrow>
          (case use_key_each ks xs of
             Inl e \<Rightarrow> Inl e
           | Inr vs \<Rightarrow> Inr (v # vs)))"

definition access :: "string \<Rightarrow> pyval \<Rightarrow> error + pyval" where
  "access keystring container = use_key (key_sequence keystring) container"


section \<open>Equality, hashing and ordering of values\<close>

text \<open>
  Python's \<^verbatim>\<open>==\<close> on the values above: \<^verbatim>\<open>True == 1\<close> and \<^verbatim>\<open>False == 0\<close>,
  sequences are compared element by element, dictionaries and sets without
  regard to their iteration order, and the identity of a list plays no role.
\<close>

fun py_eq :: "pyval \<Rightarrow> pyval \<Rightarrow> bool"
  and py_eq_list :: "pyval list \<Rightarrow> pyval list \<Rightarrow> bool"
  and py_eq_dict :: "(pykey \<times> pyval) list \<Rightarrow> (pykey \<times> pyval) list \<Rightarrow> bool"
  and py_eq_subset :: "pyval list \<Rightarrow> pyval list \<Rightarrow> bool"
  and py_eq_mem :: "pyval \<Rightarrow> pyval list \<Rightarrow> bool" where
  "py_eq PNone b = (b = PNone)"
| "py_eq (PBool x) b =
     (case b of PBool y \<Rightarrow> x = y | PInt j \<Rightarrow> (if x then 1 else 0) = j | _ \<Rightarrow> False)"
| "py_eq (PInt i) b =
     (case b of PBool y \<Rightarrow> i = (if y then 1 else 0) | PInt j \<Rightarrow> i = j | _ \<Rightarrow> False)"
| "py_eq (PStr s) b = (b = PStr s)"
| "py_eq (PList t xs) b = (case b of PList u ys \<Rightarrow> py_eq_list xs ys | _ \<Rightarrow> False)"
| "py_eq (PTuple xs) b = (case b of PTuple ys \<Rightarrow> py_eq_list xs ys | _ \<Rightarrow> False)"
| "py_eq (PDict kvs) b =
     (case b of PDict kvs' \<Rightarrow> length kvs = length kvs' \<and> py_eq_dict kvs kvs' | _ \<Rightarrow> False)"
| "py_eq (PSet xs) b =
     (case b of PSet ys \<Rightarrow> length xs = length ys \<and> py_eq_subset xs ys | _ \<Rightarrow> False)"
| "py_eq_list [] ys = (ys = [])"
| "py_eq_list (x # xs) ys =
     (case ys of [] \<Rightarrow> False | y # ys' \<Rightarrow> py_eq x y \<and> py_eq_list xs ys')"
| "py_eq_dict [] kvs' = True"
| "py_eq_dict (kv # kvs) kvs' =
     ((case map_of kvs' (fst kv) of None \<Rightarrow> False | Some v' \<Rightarrow> py_eq (snd kv) v')
      \<and> py_eq_dict kvs kvs')"
| "py_eq_subset [] ys = True"
| "py_eq_subset (x # xs) ys = (py_eq_mem x ys \<and> py_eq_subset xs ys)"
| "py_eq_mem x [] = False"
| "py_eq_mem x (y # ys) = (py_eq x y \<or> py_eq_mem x ys)"

text \<open>
  The values a set can hold.  \<^verbatim>\<open>hash(x)\<close> raises \<^verbatim>\<open>TypeError\<close> for a list, a
  dictionary or a set, also inside a tuple; \<open>py_hashable\<close> returns the value
  itself, typed as hashable.
\<close>

datatype hval = HNone | HBool bool | HInt int | HStr string | HTuple "hval list"

fun of_hval :: "hval \<Rightarrow> pyval" where
  "of_hval HNone = PNone"
| "of_hval (HBool b) = PBool b"
| "of_hval (HInt i) = PInt i"
| "of_hval (HStr s) = PStr s"
| "of_hval (HTuple hs) = PTuple (map of_hval hs)"

fun py_hashable :: "pyval \<Rightarrow> error + hval"
  and py_hashable_each :: "pyval list \<Rightarrow> error + hval list" where
  "py_hashable PNone = Inr HNone"
| "py_hashable (PBool b) = Inr (HBool b)"
| "py_hashable (PInt i) = Inr (HInt i)"
| "py_hashable (PStr s) = Inr (HStr s)"
| "py_hashable (PTuple xs) =
     (case py_hashable_each xs of Inl e \<Rightarrow> Inl e | Inr hs \<Rightarrow> Inr (HTuple hs))"
| "py_hashable (PList t xs) = Inl TypeError"
| "py_hashable (PDict kvs) = Inl TypeError"
| "py_hashable (PSet xs) = Inl TypeError"
| "py_hashable_each [] = Inr []"
| "py_hashable_each (x # xs) =
     (case py_hashable x of
        Inl e \<Rightarrow> Inl e
      | Inr h \<Rightarrow> (case py_hashable_each xs of Inl e \<Rightarrow> Inl e | Inr hs \<Rightarrow> Inr (h # hs)))"

text \<open>\<^verbatim>\<open>==\<close> and \<^verbatim>\<open><\<close> of Python 2 on hashable values.  \<^verbatim>\<open>None\<close> is smaller
  than everything else, numbers (booleans are numbers) are smaller than
  strings and tuples, a string is smaller than a tuple (the type names are
  compared), strings are compared byte by byte and tuples at their first
  unequal position.\<close>

fun h_num :: "hval \<Rightarrow> int option" where
  "h_num (HBool b) = Some (if b then 1 else 0)"
| "h_num (HInt i) = Some i"
| "h_num h = None"

fun str_lt :: "string \<Rightarrow> string \<Rightarrow> bool" where
  "str_lt [] [] = False"
| "str_lt [] (d # t) = True"
| "str_lt (c # s) [] = False"
| "str_lt (c # s) (d # t) =
     (if c = d then str_lt s t else (of_char c :: nat) < of_char d)"

fun h_rank :: "hval \<Rightarrow> nat" where
  "h_rank HNone = 0"
| "h_rank (HBool b) = 1"
| "h_rank (HInt i) = 1"
| "h_rank (HStr s) = 2"
| "h_rank (HTuple hs) = 3"

fun h_eq :: "hval \<Rightarrow> hval \<Rightarrow> bool"
  and h_eq_list :: "hval list \<Rightarrow> hval list \<Rightarrow> bool" where
  "h_eq (HTuple xs) b = (case b of HTuple ys \<Rightarrow> h_eq_list xs ys | _ \<Rightarrow> False)"
| "h_eq HNone b = (b = HNone)"
| "h_eq (HStr s) b = (b = HStr s)"
| "h_eq (HBool x) b = (h_num b = Some (if x then 1 else 0))"
| "h_eq (HInt i) b = (h_num b = Some i)"
| "h_eq_list [] ys = (ys = [])"
| "h_eq_list (x # xs) ys =
     (case ys of [] \<Rightarrow> False | y # ys' \<Rightarrow> h_eq x y \<and> h_eq_list xs ys')"

fun h_lt :: "hval \<Rightarrow> hval \<Rightarrow> bool"
  and h_lt_list :: "hval list \<Rightarrow> hval list \<Rightarrow> bool" where
  "h_lt (HTuple xs) b =
     (case b of HTuple ys \<Rightarrow> h_lt_list xs ys | _ \<Rightarrow> h_rank (HTuple xs) < h_rank b)"
| "h_lt HNone b = (h_rank HNone < h_rank b)"
| "h_lt (HStr s) b = (case b of HStr t \<Rightarrow> str_lt s t | _ \<Rightarrow> h_rank (HStr s) < h_rank b)"
| "h_lt (HBool x) b =
     (case h_num b of Some j \<Rightarrow> (if x then 1 else 0) < j | None \<Rightarrow> h_rank (HBool x) < h_rank b)"
| "h_lt (HInt i) b =
     (case h_num b of Some j \<Rightarrow> i < j | None \<Rightarrow> h_rank (HInt i) < h_rank b)"
| "h_lt_list [] ys = (ys \<noteq> [])"
| "h_lt_list (x # xs) ys =
     (case ys of [] \<Rightarrow> False
      | y # ys' \<Rightarrow> (if h_eq x y then h_lt_list xs ys' else h_lt x y))"

text \<open>Adding to a set keeps the element that is already there; iterating the
  items in order, the set holds the first of every class of equal items.\<close>

fun h_member :: "hval \<Rightarrow> hval list \<Rightarrow> bool" where
  "h_member x [] = False"
| "h_member x (y # ys) = (h_eq x y \<or> h_member x ys)"

fun h_dedup :: "hval list \<Rightarrow> hval list \<Rightarrow> hval list" where
  "h_dedup seen [] = seen"
| "h_dedup seen (x # xs) =
     (if h_member x seen then h_dedup seen xs else h_dedup (seen @ [x]) xs)"

text \<open>\<^verbatim>\<open>list.sort()\<close> on the elements of a set: no two of them are equal, and
  \<^verbatim>\<open><\<close> orders them linearly, so that every comparison sort returns the same
  list; it is computed here by insertion.\<close>

fun h_insort :: "hval \<Rightarrow> hval list \<Rightarrow> hval list" where
  "h_insort x [] = [x]"
| "h_insort x (y # ys) = (if h_lt y x then y # h_insort x ys else x # y # ys)"

definition h_sort :: "hval list \<Rightarrow> hval list" where
  "h_sort xs = foldr h_insort xs []"

section \<open>tablefy\<close>

subsection \<open>Strings and the header\<close>

text \<open>\<^verbatim>\<open>expr.strip()\<close> removes the ASCII whitespace at both ends.\<close>

definition is_space :: "char \<Rightarrow> bool" where
  "is_space c = (c \<in> {CHR '' '', CHR 0x09, CHR 0x0A, CHR 0x0B, CHR 0x0C, CHR 0x0D})"

definition strip :: "string \<Rightarrow> string" where
  "strip s = rev (dropWhile is_space (rev (dropWhile is_space s)))"

definition keystrings_of :: "string \<Rightarrow> string list" where
  "keystrings_of keystring = map strip (split_on CHR '','' keystring)"

definition is_alpha :: "char \<Rightarrow> bool" where
  "is_alpha c =
     (let n = (of_char c :: nat) in (65 \<le> n \<and> n \<le> 90) \<or> (97 \<le> n \<and> n \<le> 122))"

text \<open>\<^verbatim>\<open>re.search(r'([a-zA-Z].*)', h)\<close>: the leftmost letter and what follows
  it up to the end of its line; no match when \<open>h\<close> has no letter.\<close>

definition search_alpha :: "string \<Rightarrow> string option" where
  "search_alpha h =
     (case dropWhile (\<lambda>c. \<not> is_alpha c) h of
        [] \<Rightarrow> None
      | c # cs \<Rightarrow> Some (c # takeWhile (\<lambda>x. x \<noteq> CHR 0x0A) cs))"

text \<open>\<^verbatim>\<open>re.sub(r':.*', '', s)\<close>: every colon is removed together with the rest
  of its line.  The flag says that a colon was seen on the current line.\<close>

fun sub_colon :: "bool \<Rightarrow> string \<Rightarrow> string" where
  "sub_colon skipping [] = []"
| "sub_colon skipping (c # cs) =
     (if c = CHR 0x0A then c # sub_colon False cs
      else if skipping \<or> c = CHR '':'' then sub_colon True cs
      else c # sub_colon False cs)"

text \<open>One step of the prettify loop: a string header is cut down to its
  label, \<^verbatim>\<open>.group(1)\<close> on a failed search raises \<^verbatim>\<open>AttributeError\<close>; an
  expansion (a list) is kept.\<close>

fun prettify :: "pyval \<Rightarrow> error + pyval" where
  "prettify (PStr h) =
     (case search_alpha h of
        None \<Rightarrow> Inl AttributeError
      | Some lstripped \<Rightarrow> Inr (PStr (sub_colon False lstripped)))"
| "prettify h = Inr h"

fun prettify_each :: "pyval list \<Rightarrow> error + pyval list" where
  "prettify_each [] = Inr []"
| "prettify_each (h # hs) =
     (case prettify h of
        Inl e \<Rightarrow> Inl e
      | Inr l \<Rightarrow> (case prettify_each hs of Inl e \<Rightarrow> Inl e | Inr ls \<Rightarrow> Inr (l # ls)))"

subsection \<open>Columns\<close>

text \<open>\<^verbatim>\<open>cols = [access(keystring_, struct) for keystring_ in keystrings]\<close>.\<close>

fun access_each :: "string list \<Rightarrow> pyval \<Rightarrow> error + pyval list" where
  "access_each [] struct = Inr []"
| "access_each (k # ks) struct =
     (case access k struct of
        Inl e \<Rightarrow> Inl e
      | Inr c \<Rightarrow> (case access_each ks struct of Inl e \<Rightarrow> Inl e | Inr cs \<Rightarrow> Inr (c # cs)))"

text \<open>\<^verbatim>\<open>for col in cols: assert len(col)==len(cols[0])\<close>, with \<open>c0\<close> for
  \<^verbatim>\<open>cols[0]\<close>: \<^verbatim>\<open>len(col)\<close> is evaluated first.\<close>

fun check_lens :: "pyval \<Rightarrow> pyval list \<Rightarrow> error option" where
  "check_lens c0 [] = None"
| "check_lens c0 (col # cols) =
     (case py_len col of
        Inl e \<Rightarrow> Some e
      | Inr n \<Rightarrow>
          (case py_len c0 of
             Inl e \<Rightarrow> Some e
           | Inr n0 \<Rightarrow> if n = n0 then check_lens c0 cols else Some AssertionError))"

subsection \<open>Expanding columns to booleans\<close>

text \<open>What a \<^verbatim>\<open>for\<close> loop over a value visits; a string is iterated character
  by character, \<^verbatim>\<open>None\<close> and numbers raise \<^verbatim>\<open>TypeError\<close>.\<close>

fun py_iter :: "pyval \<Rightarrow> error + pyval list" where
  "py_iter (PStr s) = Inr (map (\<lambda>c. PStr [c]) s)"
| "py_iter v = (if has_iter v then Inr (iter_items v) else Inl TypeError)"

text \<open>The items \<^verbatim>\<open>item for entry in col for item in entry\<close> as they are added to
  the set.\<close>

fun collect_items :: "pyval list \<Rightarrow> error + hval list" where
  "collect_items [] = Inr []"
| "collect_items (entry # entries) =
     (case py_iter entry of
        Inl e \<Rightarrow> Inl e
      | Inr items \<Rightarrow>
          (case py_hashable_each items of
             Inl e \<Rightarrow> Inl e
           | Inr hs \<Rightarrow>
               (case collect_items entries of
                  Inl e \<Rightarrow> Inl e
                | Inr hs' \<Rightarrow> Inr (hs @ hs'))))"

text \<open>\<^verbatim>\<open>bool_names = list({...}); bool_names.sort()\<close>.\<close>

definition bool_names_of :: "pyval \<Rightarrow> error + hval list" where
  "bool_names_of col =
     (case py_iter col of
        Inl e \<Rightarrow> Inl e
      | Inr entries \<Rightarrow>
          (case collect_items entries of
             Inl e \<Rightarrow> Inl e
           | Inr hs \<Rightarrow> Inr (h_sort (h_dedup [] hs))))"

text \<open>\<^verbatim>\<open>x in entry\<close>: a scan with \<^verbatim>\<open>==\<close> for a list, tuple or set, the keys for
  a dictionary, the substring test for a string, which accepts only a string
  on the left.\<close>

definition is_substring :: "string \<Rightarrow> string \<Rightarrow> bool" where
  "is_substring t s = list_ex (\<lambda>k. take (length t) (drop k s) = t) [0..<Suc (length s)]"

fun py_contains :: "pyval \<Rightarrow> pyval \<Rightarrow> error + bool" where
  "py_contains x (PStr s) =
     (case x of PStr t \<Rightarrow> Inr (is_substring t s) | _ \<Rightarrow> Inl TypeError)"
| "py_contains x entry =
     (if has_iter entry then Inr (py_eq_mem x (iter_items entry)) else Inl TypeError)"

text \<open>\<^verbatim>\<open>cols.index(col)\<close> for the column at position \<open>j\<close>: the first position
  that holds the same object or an equal one.\<close>

fun index_from :: "nat \<Rightarrow> pyval list \<Rightarrow> nat \<Rightarrow> pyval \<Rightarrow> nat" where
  "index_from i [] j col = j"
| "index_from i (c # cs) j col =
     (if i = j \<or> py_eq c col then i else index_from (Suc i) cs j col)"

definition cols_index :: "pyval list \<Rightarrow> nat \<Rightarrow> nat" where
  "cols_index cols j = index_from 0 cols j (cols ! j)"

text \<open>
  The state of the expansion loop: the caller's structure, the columns and
  \<^verbatim>\<open>cols_expanded\<close>.  A column that is a list object of the caller's
  structure is that object: storing into it shows wherever the object is
  referred to, in the structure and in the columns.
\<close>

record tab_state =
  struct :: pyval
  cols :: "pyval list"
  cols_expanded :: "(nat \<times> hval list) list"

fun store_at :: "nat \<Rightarrow> nat \<Rightarrow> pyval \<Rightarrow> pyval \<Rightarrow> pyval"
  and store_at_each :: "nat \<Rightarrow> nat \<Rightarrow> pyval \<Rightarrow> pyval list \<Rightarrow> pyval list"
  and store_at_dict :: "nat \<Rightarrow> nat \<Rightarrow> pyval \<Rightarrow> (pykey \<times> pyval) list \<Rightarrow> (pykey \<times> pyval) list" where
  "store_at a i v (PList t xs) =
     (if t = Some a then PList t ((store_at_each a i v xs)[i := v])
      else PList t (store_at_each a i v xs))"
| "store_at a i v (PTuple xs) = PTuple (store_at_each a i v xs)"
| "store_at a i v (PSet xs) = PSet (store_at_each a i v xs)"
| "store_at a i v (PDict kvs) = PDict (store_at_dict a i v kvs)"
| "store_at a i v PNone = PNone"
| "store_at a i v (PBool b) = PBool b"
| "store_at a i v (PInt n) = PInt n"
| "store_at a i v (PStr s) = PStr s"
| "store_at_each a i v [] = []"
| "store_at_each a i v (x # xs) = store_at a i v x # store_at_each a i v xs"
| "store_at_dict a i v [] = []"
| "store_at_dict a i v (kv # kvs) = (fst kv, store_at a i v (snd kv)) # store_at_dict a i v kvs"

text \<open>\<^verbatim>\<open>col[i] = v\<close> for the column at position \<open>j\<close>; a tuple does not support
  item assignment.  (A column that is a dictionary, a set or a string never
  gets here: see \<open>expand_col\<close>.)\<close>

definition set_item :: "nat \<Rightarrow> nat \<Rightarrow> pyval \<Rightarrow> tab_state \<Rightarrow> error + tab_state" where
  "set_item j i v s =
     (case cols s ! j of
        PList (Some a) xs \<Rightarrow>
          Inr (s\<lparr>struct := store_at a i v (struct s),
                 cols := store_at_each a i v (cols s)\<rparr>)
      | PList None xs \<Rightarrow> Inr (s\<lparr>cols := (cols s)[j := PList None (xs[i := v])]\<rparr>)
      | _ \<Rightarrow> Inl TypeError)"

text \<open>\<^verbatim>\<open>map(lambda x: x in col[i], bool_names)\<close>.\<close>

fun contains_each :: "pyval \<Rightarrow> nat \<Rightarrow> hval list \<Rightarrow> error + bool list" where
  "contains_each col i [] = Inr []"
| "contains_each col i (x # xs) =
     (case py_getitem col (KInt (int i)) of
        Inl e \<Rightarrow> Inl e
      | Inr entry \<Rightarrow>
          (case py_contains (of_hval x) entry of
             Inl e \<Rightarrow> Inl e
           | Inr b \<Rightarrow>
               (case contains_each col i xs of
                  Inl e \<Rightarrow> Inl e
                | Inr bs \<Rightarrow> Inr (b # bs))))"

text \<open>What \<^verbatim>\<open>map(lambda x: x in entry, bool_names)\<close> is for an entry with
  \<^verbatim>\<open>__iter__\<close>: one boolean per name, the membership of the name in the entry.\<close>

definition bool_row :: "hval list \<Rightarrow> pyval \<Rightarrow> pyval" where
  "bool_row names entry =
     PList None (map (\<lambda>v. PBool (py_eq_mem (of_hval v) (iter_items entry))) names)"

text \<open>\<^verbatim>\<open>for i in range(len(col)): col[i] = map(...)\<close>.  An exception leaves the
  entries stored so far in place.\<close>

fun assign_loop :: "nat \<Rightarrow> hval list \<Rightarrow> nat list \<Rightarrow> tab_state \<Rightarrow> error option \<times> tab_state" where
  "assign_loop j names [] s = (None, s)"
| "assign_loop j names (i # is) s =
     (case contains_each (cols s ! j) i names of
        Inl e \<Rightarrow> (Some e, s)
      | Inr bs \<Rightarrow>
          (case set_item j i (PList None (map PBool bs)) s of
             Inl e \<Rightarrow> (Some e, s)
           | Inr s' \<Rightarrow> assign_loop j names is s'))"

text \<open>The body of \<^verbatim>\<open>for col in cols\<close> for the column at position \<open>j\<close>.\<close>

definition expand_col :: "nat \<Rightarrow> tab_state \<Rightarrow> error option \<times> tab_state" where
  "expand_col j s =
     (case py_getitem (cols s ! j) (KInt 0) of
        Inl e \<Rightarrow> (Some e, s)
      | Inr first \<Rightarrow>
          if has_iter first then
            (case bool_names_of (cols s ! j) of
               Inl e \<Rightarrow> (Some e, s)
             | Inr names \<Rightarrow>
                 assign_loop j names [0..<len_of (cols s ! j)]
                   (s\<lparr>cols_expanded := cols_expanded s @ [(cols_index (cols s) j, names)]\<rparr>))
          else (None, s))"

fun expand_cols :: "nat list \<Rightarrow> tab_state \<Rightarrow> error option \<times> tab_state" where
  "expand_cols [] s = (None, s)"
| "expand_cols (j # js) s =
     (case expand_col j s of
        (Some e, s') \<Rightarrow> (Some e, s')
      | (None, s') \<Rightarrow> expand_cols js s')"

subsection \<open>Header, rows and flattening\<close>

text \<open>\<^verbatim>\<open>for i, expansion in cols_expanded: header[i] = expansion\<close>.\<close>

fun update_header :: "(nat \<times> hval list) list \<Rightarrow> pyval list \<Rightarrow> pyval list" where
  "update_header [] header = header"
| "update_header (ie # rest) header =
     update_header rest (header[fst ie := PList None (map of_hval (snd ie))])"

text \<open>\<^verbatim>\<open>zip(*cols)\<close> in Python 2: a list of tuples, as long as the shortest
  column.\<close>

definition zip_cols :: "pyval list list \<Rightarrow> pyval list" where
  "zip_cols css =
     (if css = [] then []
      else map (\<lambda>r. PTuple (map (\<lambda>c. c ! r) css))
             [0..<foldr min (map length (tl css)) (length (hd css))])"

fun py_iter_each :: "pyval list \<Rightarrow> error + pyval list list" where
  "py_iter_each [] = Inr []"
| "py_iter_each (c # cs) =
     (case py_iter c of
        Inl e \<Rightarrow> Inl e
      | Inr xs \<Rightarrow> (case py_iter_each cs of Inl e \<Rightarrow> Inl e | Inr xss \<Rightarrow> Inr (xs # xss)))"

text \<open>The flattening of one row: a cell with \<^verbatim>\<open>__iter__\<close> is spliced in, any
  other cell is appended.\<close>

definition flatten_cell :: "pyval \<Rightarrow> pyval list" where
  "flatten_cell cell = (if has_iter cell then iter_items cell else [cell])"

definition flatten_row :: "pyval \<Rightarrow> pyval" where
  "flatten_row row = PList None (concat (map flatten_cell (iter_items row)))"

subsection \<open>The function\<close>

text \<open>
  \<^verbatim>\<open>tablefy(keystring, struct, expand_lists_to_bool, flatten_lists)\<close>.  The
  outcome is the list of rows or the exception raised, together with the
  caller's structure as it is when the call ends.
\<close>

definition make_rows :: "bool \<Rightarrow> string list \<Rightarrow> tab_state \<Rightarrow> error + pyval list" where
  "make_rows flatten_lists keystrings s =
     (case prettify_each (update_header (cols_expanded s) (map PStr keystrings)) of
        Inl e \<Rightarrow> Inl e
      | Inr header \<Rightarrow>
          (case py_iter_each (cols s) of
             Inl e \<Rightarrow> Inl e
           | Inr css \<Rightarrow>
               (let rows = PList None header # zip_cols css
                in Inr (if flatten_lists then map flatten_row rows else rows))))"

text \<open>The block \<^verbatim>\<open>if expand_lists_to_bool: for col in cols: ...\<close>.\<close>

definition expand_stage :: "bool \<Rightarrow> pyval \<Rightarrow> pyval list \<Rightarrow> error option \<times> tab_state" where
  "expand_stage expand_lists_to_bool struct0 cols0 =
     (if expand_lists_to_bool
      then expand_cols [0..<length cols0]
             \<lparr>struct = struct0, cols = cols0, cols_expanded = []\<rparr>
      else (None, \<lparr>struct = struct0, cols = cols0, cols_expanded = []\<rparr>))"

definition tablefy_run ::
  "string \<Rightarrow> pyval \<Rightarrow> bool \<Rightarrow> bool \<Rightarrow> (error + pyval list) \<times> pyval" where
  "tablefy_run keystring struct0 expand_lists_to_bool flatten_lists =
     (let keystrings = keystrings_of keystring in
      case access_each keystrings struct0 of
        Inl e \<Rightarrow> (Inl e, struct0)
      | Inr cols0 \<Rightarrow>
          (case check_lens (hd cols0) cols0 of
             Some e \<Rightarrow> (Inl e, struct0)
           | None \<Rightarrow>
               (case expand_stage expand_lists_to_bool struct0 cols0 of
                  (Some e, s) \<Rightarrow> (Inl e, struct s)
                | (None, s) \<Rightarrow> (make_rows flatten_lists keystrings s, struct s))))"

definition tablefy :: "string \<Rightarrow> pyval \<Rightarrow> bool \<Rightarrow> bool \<Rightarrow> error + pyval list" where
  "tablefy keystring struct0 expand_lists_to_bool flatten_lists =
     fst (tablefy_run keystring struct0 expand_lists_to_bool flatten_lists)"

definition struct_after :: "string \<Rightarrow> pyval \<Rightarrow> bool \<Rightarrow> bool \<Rightarrow> pyval" where
  "struct_after keystring struct0 expand_lists_to_bool flatten_lists =
     snd (tablefy_run keystring struct0 expand_lists_to_bool flatten_lists)"

section \<open>Properties of the parser\<close>

lemma split_on_no_delim: "d \<notin> set s \<Longrightarrow> split_on d s = [s]"
  by (induction s) auto

lemma split_on_first_segment:
  "d \<notin> set s \<Longrightarrow> split_on d (s @ d # r) = s # split_on d r"
  by (induction s) auto

lemma split_on_join_colon:
  "segs \<noteq> [] \<Longrightarrow> \<forall>s \<in> set segs. CHR '':'' \<notin> set s \<Longrightarrow>
   split_on CHR '':'' (join_colon segs) = segs"
  by (induction segs rule: join_colon.induct)
     (auto simp: split_on_no_delim split_on_first_segment)

lemma rstrip_colons_snoc: "rstrip_colons (p @ '':'') = rstrip_colons p"
  by (simp add: rstrip_colons_def)

lemma rstrip_colons_id:
  "s \<noteq> [] \<Longrightarrow> last s \<noteq> CHR '':'' \<Longrightarrow> rstrip_colons s = s"
  by (cases s rule: rev_cases) (auto simp: rstrip_colons_def)

lemma join_colon_last:
  "segs \<noteq> [] \<Longrightarrow> last segs \<noteq> [] \<Longrightarrow>
   join_colon segs \<noteq> [] \<and> last (join_colon segs) = last (last segs)"
  by (induction segs rule: join_colon.induct) auto

lemma key_sequence_join_colon:
  assumes "segs \<noteq> []" and "last segs \<noteq> []"
    and "\<forall>s \<in> set segs. CHR '':'' \<notin> set s"
  shows "key_sequence (join_colon segs) = map coerce_segment segs"
proof -
  have "last (last segs) \<in> set (last segs)"
    using assms(2) by simp
  moreover have "last segs \<in> set segs"
    using assms(1) by simp
  ultimately have "last (last segs) \<noteq> CHR '':''"
    using assms(3) by metis
  then have "rstrip_colons (join_colon segs) = join_colon segs"
    using join_colon_last [OF assms(1,2)] by (simp add: rstrip_colons_id)
  then show ?thesis
    by (simp add: key_sequence_def split_on_join_colon [OF assms(1,3)])
qed

lemmas parse_defs =
  key_sequence_def rstrip_colons_def coerce_segment_def isdigit_def is_digit_def
  int_of_digits_def digit_val_def

text \<open>
  Claim C6.  A colon appended to a keystring changes nothing: \<^verbatim>\<open>access\<close>
  returns the same for \<open>p @ '':''\<close> and for \<open>p\<close>.  An empty segment inside a
  keystring is kept as the wildcard between its neighbours, as in \<^verbatim>\<open>a::b\<close>.
  In general, segments without a colon, the last of them non-empty, written
  with colons between them are parsed back one by one: a non-empty segment of
  digits becomes the integer it denotes, every other segment stays a string.
\<close>

theorem access_trailing_colon_and_segments:
  "access (p @ '':'') c = access p c
   \<and> key_sequence ''a::b'' = [KStr ''a'', KStr [], KStr ''b'']
   \<and> (segs \<noteq> [] \<and> last segs \<noteq> [] \<and> (\<forall>s \<in> set segs. CHR '':'' \<notin> set s) \<longrightarrow>
        key_sequence (join_colon segs) =
          map (\<lambda>s. if s \<noteq> [] \<and> list_all is_digit s then KInt (int_of_digits s) else KStr s)
            segs)"
proof (intro conjI impI)
  show "access (p @ '':'') c = access p c"
    by (simp add: access_def key_sequence_def rstrip_colons_snoc)
  show "key_sequence ''a::b'' = [KStr ''a'', KStr [], KStr ''b'']"
    by (simp add: parse_defs)
  show "key_sequence (join_colon segs) =
          map (\<lambda>s. if s \<noteq> [] \<and> list_all is_digit s then KInt (int_of_digits s) else KStr s)
            segs"
    if "segs \<noteq> [] \<and> last segs \<noteq> [] \<and> (\<forall>s \<in> set segs. CHR '':'' \<notin> set s)"
  proof -
    have "map coerce_segment segs =
          map (\<lambda>s. if s \<noteq> [] \<and> list_all is_digit s then KInt (int_of_digits s) else KStr s)
            segs"
      by (simp add: coerce_segment_def isdigit_def)
    with that show ?thesis
      by (simp add: key_sequence_join_colon)
  qed
qed

theorem access_trailing_colon_and_segments_witness:
  "access ''squares:0:'' (PDict [(KStr ''squares'', PList (Some 0) [PInt 1, PInt 4])])
     = access ''squares:0'' (PDict [(KStr ''squares'', PList (Some 0) [PInt 1, PInt 4])])
   \<and> access ''squares:0'' (PDict [(KStr ''squares'', PList (Some 0) [PInt 1, PInt 4])])
     = Inr (PInt 1)
   \<and> key_sequence (join_colon [''squares'', [], ''007'']) =
       [KStr ''squares'', KStr [], KInt 7]"
proof -
  have segs: "[''squares'', [], ''007''] \<noteq> []
      \<and> last [''squares'', [], ''007''] \<noteq> []
      \<and> (\<forall>s \<in> set [''squares'', [], ''007'']. CHR '':'' \<notin> set s)"
    by simp
  have run: "access ''squares:0'' (PDict [(KStr ''squares'', PList (Some 0) [PInt 1, PInt 4])])
      = Inr (PInt 1)"
    by (simp add: access_def parse_defs seq_index_def len_of_def)
  show ?thesis
    using access_trailing_colon_and_segments
      [of "''squares:0''" "PDict [(KStr ''squares'', PList (Some 0) [PInt 1, PInt 4])]"
          "[''squares'', [], ''007'']"]
      segs run
    by (simp add: is_digit_def int_of_digits_def digit_val_def)
qed

section \<open>Properties of access\<close>

text \<open>
  Claim C2 says that a wildcard that meets a value without \<^verbatim>\<open>__iter__\<close> (not a
  dictionary, list, tuple or set) fails with a type error.  The code has no
  \<^verbatim>\<open>else\<close> branch there: it returns the empty \<^verbatim>\<open>items\<close> list.  Here the
  wildcard of \<^verbatim>\<open>a::b\<close> meets the number 5.
\<close>

theorem wildcard_on_scalar_counterexample:
  "access ''a::b'' (PDict [(KStr ''a'', PInt 5)]) = Inr (PList None [])
   \<and> access ''a::b'' (PDict [(KStr ''a'', PInt 5)]) \<noteq> Inl TypeError"
  by (simp add: access_def parse_defs)

text \<open>
  Claim C2, amended.  Whenever the evaluation reaches a wildcard segment with
  a value that has no \<^verbatim>\<open>__iter__\<close> as the container, whatever segments
  follow, that call returns the empty list and raises nothing.
\<close>

theorem wildcard_on_scalar_empty_list:
  "\<not> has_iter container \<Longrightarrow> use_key (KStr [] # ks) container = Inr (PList None [])"
  by (cases container) auto

theorem wildcard_on_scalar_empty_list_witness:
  "\<not> has_iter (PStr ''mbed'')
   \<and> use_key [KStr [], KStr ''x'', KInt 0] (PStr ''mbed'') = Inr (PList None [])"
  using wildcard_on_scalar_empty_list [of "PStr ''mbed''" "[KStr ''x'', KInt 0]"]
  by simp

text \<open>
  Claim C3 (a wildcard as the last segment returns the container's elements
  as they are).  The dictionary branch tests \<^verbatim>\<open>len(key) > 1\<close> and appends the
  values; the branch for lists, tuples and sets does not test it and calls
  \<^verbatim>\<open>use_key(key[1:], item)\<close> with an empty key list, whose \<^verbatim>\<open>key[0]\<close> raises
  \<^verbatim>\<open>IndexError\<close>.  The empty keystring is parsed to the single wildcard.
\<close>

theorem wildcard_last_on_list_raises:
  "key_sequence [] = [KStr []]
   \<and> access [] (PList (Some 0) [PInt 1, PInt 2]) = Inl IndexError
   \<and> access [] (PDict [(KStr ''a'', PInt 1), (KStr ''b'', PInt 2)])
       = Inr (PList None [PInt 1, PInt 2])"
  by (simp add: access_def parse_defs dict_values_def)

text \<open>
  Claim C4 says that a key missing from a dictionary in the middle of a path
  yields \<^verbatim>\<open>None\<close>.  The code indexes with \<^verbatim>\<open>container[key[0]]\<close> there,
  without a membership test.
\<close>

theorem missing_key_mid_path_counterexample:
  "access ''a:b'' (PDict [(KStr ''x'', PInt 1)]) = Inl KeyError
   \<and> access ''a:b'' (PDict [(KStr ''x'', PInt 1)]) \<noteq> Inr PNone"
  by (simp add: access_def parse_defs)

text \<open>
  Claim C4, amended.  When a key segment that is followed by further segments
  is not a key of the dictionary it is applied to, that call raises
  \<^verbatim>\<open>KeyError\<close>; only the last segment is looked up with a membership test.
\<close>

theorem missing_key_mid_path_raises:
  "k \<noteq> KStr [] \<Longrightarrow> ks \<noteq> [] \<Longrightarrow> map_of kvs k = None \<Longrightarrow>
   use_key (k # ks) (PDict kvs) = Inl KeyError"
  by simp

theorem missing_key_mid_path_raises_witness:
  "KStr ''serial'' \<noteq> KStr [] \<and> [KInt 1] \<noteq> []
   \<and> map_of [(KStr ''idVendor'', PInt 1)] (KStr ''serial'') = None
   \<and> use_key [KStr ''serial'', KInt 1] (PDict [(KStr ''idVendor'', PInt 1)]) = Inl KeyError"
  using missing_key_mid_path_raises
    [of "KStr ''serial''" "[KInt 1]" "[(KStr ''idVendor'', PInt 1)]"]
  by simp

text \<open>
  Claim C5 (a failed lookup of the last segment gives \<^verbatim>\<open>None\<close>).  The test
  of the last segment is \<^verbatim>\<open>key in dict\<close> or \<^verbatim>\<open>hasattr(container, '__iter__')
  and key < len(container)\<close>; a dictionary has \<^verbatim>\<open>__iter__\<close> too, so an integer
  segment that is not a key but is smaller than the size of the dictionary
  passes the test and \<^verbatim>\<open>container[key]\<close> raises \<^verbatim>\<open>KeyError\<close>.
\<close>

theorem digit_segment_on_dict_raises:
  "map_of [(KStr ''a'', PInt 1)] (KInt 0) = None
   \<and> access ''0'' (PDict [(KStr ''a'', PInt 1)]) = Inl KeyError"
  by (simp add: access_def parse_defs len_of_def)

section \<open>Properties of tablefy\<close>

lemmas run_defs =
  tablefy_def struct_after_def tablefy_run_def expand_stage_def keystrings_of_def strip_def
  is_space_def access_def parse_defs seq_index_def len_of_def make_rows_def expand_col_def
  bool_names_of_def h_sort_def cols_index_def set_item_def zip_cols_def flatten_row_def
  flatten_cell_def search_alpha_def is_alpha_def dict_values_def is_substring_def

subsection \<open>The length check\<close>

lemma check_lens_unequal:
  "\<forall>c \<in> set cs. \<exists>n. py_len c = Inr n \<Longrightarrow> py_len c0 = Inr n0 \<Longrightarrow>
   \<exists>c \<in> set cs. py_len c \<noteq> Inr n0 \<Longrightarrow> check_lens c0 cs = Some AssertionError"
proof (induction cs)
  case Nil
  then show ?case by simp
next
  case (Cons c cs)
  then obtain n where n: "py_len c = Inr n" by auto
  show ?case
  proof (cases "n = n0")
    case True
    with Cons n show ?thesis by auto
  next
    case False
    with Cons.prems n show ?thesis by simp
  qed
qed

lemma access_each_length:
  "access_each ks st = Inr cs \<Longrightarrow> length cs = length ks"
  by (induction ks arbitrary: cs) (auto split: sum.splits)

lemma keystrings_of_nonempty: "keystrings_of ks \<noteq> []"
  by (cases ks) (auto simp: keystrings_of_def)

text \<open>
  Claim C8.  When every expression has produced its column, every column has
  a length and the lengths are not all the same, \<^verbatim>\<open>tablefy\<close> raises
  \<^verbatim>\<open>AssertionError\<close>, whatever the two flags and the labels are, and it has not
  stored anything yet: the failure comes before expansion, header, rows and
  flattening, and no table is returned.
\<close>

theorem unequal_columns_assertion:
  assumes "access_each (keystrings_of ks) st = Inr cols0"
    and "\<forall>c \<in> set cols0. \<exists>n. py_len c = Inr n"
    and "\<exists>c \<in> set cols0. py_len c \<noteq> py_len (hd cols0)"
  shows "tablefy_run ks st ex fl = (Inl AssertionError, st)"
proof -
  have "cols0 \<noteq> []"
    using access_each_length [OF assms(1)] keystrings_of_nonempty by auto
  then have "hd cols0 \<in> set cols0"
    by simp
  then obtain n0 where n0: "py_len (hd cols0) = Inr n0"
    using assms(2) by auto
  have "check_lens (hd cols0) cols0 = Some AssertionError"
    using check_lens_unequal [OF assms(2) n0] assms(3) n0 by simp
  then show ?thesis
    using assms(1) by (simp add: tablefy_run_def)
qed

theorem unequal_columns_assertion_witness:
  "tablefy_run '':a, 0:a''
     (PList (Some 0)
        [PDict [(KStr ''a'', PList (Some 1) [PInt 1, PInt 2, PInt 3])],
         PDict [(KStr ''a'', PList (Some 2) [PInt 4])]]) True True
   = (Inl AssertionError,
      PList (Some 0)
        [PDict [(KStr ''a'', PList (Some 1) [PInt 1, PInt 2, PInt 3])],
         PDict [(KStr ''a'', PList (Some 2) [PInt 4])]])"
proof -
  let ?st = "PList (Some 0)
        [PDict [(KStr ''a'', PList (Some 1) [PInt 1, PInt 2, PInt 3])],
         PDict [(KStr ''a'', PList (Some 2) [PInt 4])]]"
  let ?cols = "[PList None [PList (Some 1) [PInt 1, PInt 2, PInt 3], PList (Some 2) [PInt 4]],
                PList (Some 1) [PInt 1, PInt 2, PInt 3]]"
  have cols: "access_each (keystrings_of '':a, 0:a'') ?st = Inr ?cols"
    by (simp add: keystrings_of_def strip_def is_space_def access_def parse_defs
        seq_index_def len_of_def)
  have sized: "\<forall>c \<in> set ?cols. \<exists>n. py_len c = Inr n"
    by simp
  have unequal: "\<exists>c \<in> set ?cols. py_len c \<noteq> py_len (hd ?cols)"
    by simp
  show ?thesis
    by (rule unequal_columns_assertion [OF cols sized unequal])
qed

subsection \<open>Labels without a letter\<close>

lemma search_alpha_None: "search_alpha h = None \<longleftrightarrow> \<not> list_ex is_alpha h"
  by (induction h) (auto simp: search_alpha_def split: list.splits)

lemma prettify_error: "prettify y = Inl e \<Longrightarrow> e = AttributeError"
  by (cases y) (auto split: option.splits)

lemma prettify_each_no_letter:
  "i < length hs \<Longrightarrow> hs ! i = PStr h \<Longrightarrow> \<not> list_ex is_alpha h \<Longrightarrow>
   prettify_each hs = Inl AttributeError"
proof (induction hs arbitrary: i)
  case Nil
  then show ?case by simp
next
  case (Cons x xs)
  show ?case
  proof (cases i)
    case 0
    with Cons.prems have "search_alpha h = None"
      by (simp add: search_alpha_None)
    with 0 Cons.prems show ?thesis by simp
  next
    case (Suc k)
    with Cons have "prettify_each xs = Inl AttributeError"
      by simp
    then show ?thesis
      using prettify_error [of x] by (auto split: sum.splits)
  qed
qed

lemma update_header_length: "length (update_header exps hdr) = length hdr"
  by (induction exps arbitrary: hdr) auto

lemma update_header_other:
  "i \<notin> fst ` set exps \<Longrightarrow> update_header exps hdr ! i = hdr ! i"
  by (induction exps arbitrary: hdr) auto

lemma strip_subset: "set (strip s) \<subseteq> set s"
proof
  fix x
  assume "x \<in> set (strip s)"
  then have "x \<in> set (dropWhile is_space (rev (dropWhile is_space s)))"
    by (simp add: strip_def)
  then have "x \<in> set (rev (dropWhile is_space s))"
    by (rule set_dropWhileD)
  then have "x \<in> set (dropWhile is_space s)"
    by simp
  then show "x \<in> set s"
    by (rule set_dropWhileD)
qed

lemma make_rows_no_letter:
  assumes "i < length (split_on CHR '','' ks)"
    and "\<not> list_ex is_alpha (split_on CHR '','' ks ! i)"
    and "i \<notin> fst ` set (cols_expanded s)"
  shows "make_rows fl (keystrings_of ks) s = Inl AttributeError"
proof -
  let ?hdr = "update_header (cols_expanded s) (map PStr (keystrings_of ks))"
  have len: "i < length ?hdr"
    using assms(1) by (simp add: update_header_length keystrings_of_def)
  have "\<not> list_ex is_alpha (strip (split_on CHR '','' ks ! i))"
    using assms(2) strip_subset [of "split_on CHR '','' ks ! i"]
    by (auto simp: list_ex_iff)
  moreover have "?hdr ! i = PStr (strip (split_on CHR '','' ks ! i))"
    using assms(1,3) by (simp add: update_header_other keystrings_of_def)
  ultimately have "prettify_each ?hdr = Inl AttributeError"
    using len prettify_each_no_letter by blast
  then show ?thesis
    by (simp add: make_rows_def)
qed

text \<open>
  Claim C9.  Let the \<open>i\<close>-th expression of the keystring have no ASCII letter.
  If the columns are produced, pass the length check and the expansion block
  ends without an exception and without an expansion recorded for position
  \<open>i\<close>, then \<^verbatim>\<open>tablefy\<close> raises \<^verbatim>\<open>AttributeError\<close>, from \<^verbatim>\<open>.group(1)\<close> on the
  failed search.  In particular, without expansion \<^verbatim>\<open>tablefy\<close> never returns a
  table for such a keystring.
\<close>

theorem label_without_letter_fails:
  assumes "i < length (split_on CHR '','' ks)"
    and "\<not> list_ex is_alpha (split_on CHR '','' ks ! i)"
  shows "(access_each (keystrings_of ks) st = Inr cols0
          \<and> check_lens (hd cols0) cols0 = None
          \<and> expand_stage ex st cols0 = (None, s)
          \<and> i \<notin> fst ` set (cols_expanded s)
          \<longrightarrow> tablefy ks st ex fl = Inl AttributeError)
       \<and> (\<forall>rows. tablefy ks st False fl \<noteq> Inr rows)"
proof (intro conjI impI allI)
  assume "access_each (keystrings_of ks) st = Inr cols0
          \<and> check_lens (hd cols0) cols0 = None
          \<and> expand_stage ex st cols0 = (None, s)
          \<and> i \<notin> fst ` set (cols_expanded s)"
  then show "tablefy ks st ex fl = Inl AttributeError"
    using make_rows_no_letter [OF assms, of s fl]
    by (simp add: tablefy_def tablefy_run_def)
next
  fix rows
  have "make_rows fl (keystrings_of ks) \<lparr>struct = st, cols = c, cols_expanded = []\<rparr>
        = Inl AttributeError" for c
    using make_rows_no_letter [OF assms] by simp
  then show "tablefy ks st False fl \<noteq> Inr rows"
    by (auto simp: tablefy_def tablefy_run_def expand_stage_def Let_def
        split: sum.splits option.splits)
qed

theorem label_without_letter_fails_witness:
  "tablefy ''0:1'' (PList (Some 0) [PList (Some 1) [PStr ''ab'', PStr ''cd'']]) True True
     = Inl AttributeError
   \<and> access ''0:1'' (PList (Some 0) [PList (Some 1) [PStr ''ab'', PStr ''cd'']])
     = Inr (PStr ''cd'')"
proof -
  let ?st = "PList (Some 0) [PList (Some 1) [PStr ''ab'', PStr ''cd'']]"
  let ?s = "\<lparr>struct = ?st, cols = [PStr ''cd''], cols_expanded = []\<rparr>"
  have i: "0 < length (split_on CHR '','' ''0:1'')"
    by simp
  have no_letter: "\<not> list_ex is_alpha (split_on CHR '','' ''0:1'' ! 0)"
    by (simp add: is_alpha_def)
  have acc: "access ''0:1'' ?st = Inr (PStr ''cd'')"
    by (simp add: access_def parse_defs seq_index_def len_of_def)
  have cols: "access_each (keystrings_of ''0:1'') ?st = Inr [PStr ''cd'']"
    using acc by (simp add: keystrings_of_def strip_def is_space_def)
  have stage: "expand_stage True ?st [PStr ''cd''] = (None, ?s)"
    by (simp add: expand_stage_def expand_col_def seq_index_def)
  have "tablefy ''0:1'' ?st True True = Inl AttributeError"
    using label_without_letter_fails [OF i no_letter, of ?st "[PStr ''cd'']" True ?s True]
      cols stage
    by simp
  with acc show ?thesis
    by simp
qed

subsection \<open>What the call does to the caller's structure\<close>

lemma use_key_wildcard_fresh:
  "KStr [] \<in> set ks \<Longrightarrow> use_key ks c = Inr v \<Longrightarrow> \<exists>items. v = PList None items"
proof (induction ks arbitrary: c v)
  case Nil
  then show ?case by simp
next
  case (Cons k ks)
  show ?case
  proof (cases "k = KStr []")
    case True
    with Cons.prems(2) show ?thesis
      by (cases c) (auto split: sum.splits if_splits)
  next
    case False
    with Cons.prems(1) have in_ks: "KStr [] \<in> set ks" and ne: "ks \<noteq> []"
      by auto
    from Cons.prems(2) False ne obtain w where "use_key ks w = Inr v"
      by (auto split: sum.splits)
    with Cons.IH [OF in_ks] show ?thesis by blast
  qed
qed

lemma access_each_fresh:
  "\<forall>k \<in> set ks. KStr [] \<in> set (key_sequence k) \<Longrightarrow> access_each ks st = Inr cs \<Longrightarrow>
   \<forall>c \<in> set cs. \<exists>items. c = PList None items"
proof (induction ks arbitrary: cs)
  case Nil
  then show ?case by simp
next
  case (Cons k ks)
  then show ?case
    by (auto split: sum.splits simp: access_def dest: use_key_wildcard_fresh)
qed

lemma set_item_fresh:
  assumes "\<forall>c \<in> set (cols s). \<exists>items. c = PList None items"
    and "j < length (cols s)"
    and "set_item j i v s = Inr s'"
  shows "struct s' = struct s \<and> length (cols s') = length (cols s)
         \<and> (\<forall>c \<in> set (cols s'). \<exists>items. c = PList None items)"
proof -
  from assms(1,2) obtain xs where xs: "cols s ! j = PList None xs"
    using nth_mem by blast
  with assms(3) have s': "s' = s\<lparr>cols := (cols s)[j := PList None (xs[i := v])]\<rparr>"
    by (simp add: set_item_def)
  have "set ((cols s)[j := PList None (xs[i := v])])
        \<subseteq> insert (PList None (xs[i := v])) (set (cols s))"
    by (rule set_update_subset_insert)
  with assms(1) s' show ?thesis by auto
qed

lemma assign_loop_fresh:
  "\<forall>c \<in> set (cols s). \<exists>items. c = PList None items \<Longrightarrow> j < length (cols s) \<Longrightarrow>
   assign_loop j names is s = (r, s') \<Longrightarrow>
   struct s' = struct s \<and> length (cols s') = length (cols s)
   \<and> (\<forall>c \<in> set (cols s'). \<exists>items. c = PList None items)"
proof (induction "is" arbitrary: s)
  case Nil
  then show ?case by simp
next
  case (Cons i "is")
  show ?case
  proof (cases "contains_each (cols s ! j) i names")
    case (Inl e)
    with Cons.prems show ?thesis by simp
  next
    case (Inr bs)
    show ?thesis
    proof (cases "set_item j i (PList None (map PBool bs)) s")
      case (Inl e)
      with Inr Cons.prems show ?thesis by simp
    next
      case inr: (Inr s1)
      note step = set_item_fresh [OF Cons.prems(1,2) inr]
      from Inr inr Cons.prems(3) have "assign_loop j names is s1 = (r, s')"
        by simp
      with Cons.IH [of s1] step Cons.prems(2) show ?thesis
        by simp
    qed
  qed
qed

lemma expand_col_fresh:
  assumes "\<forall>c \<in> set (cols s). \<exists>items. c = PList None items"
    and "j < length (cols s)"
    and "expand_col j s = (r, s')"
  shows "struct s' = struct s \<and> length (cols s') = length (cols s)
         \<and> (\<forall>c \<in> set (cols s'). \<exists>items. c = PList None items)"
proof -
  have same: "cols (s\<lparr>cols_expanded := x\<rparr>) = cols s" "struct (s\<lparr>cols_expanded := x\<rparr>) = struct s" for x
    by simp_all
  show ?thesis
    using assms(3) assms(1,2)
      assign_loop_fresh [of "s\<lparr>cols_expanded := x\<rparr>" j _ _ r s' for x, unfolded same]
    by (auto simp: expand_col_def split: sum.splits if_splits)
qed

lemma expand_cols_fresh:
  "\<forall>c \<in> set (cols s). \<exists>items. c = PList None items \<Longrightarrow> \<forall>j \<in> set js. j < length (cols s) \<Longrightarrow>
   expand_cols js s = (r, s') \<Longrightarrow> struct s' = struct s"
proof (induction js arbitrary: s)
  case Nil
  then show ?case by simp
next
  case (Cons j js)
  obtain r1 s1 where step: "expand_col j s = (r1, s1)"
    by (cases "expand_col j s")
  from Cons.prems(2) have j: "j < length (cols s)" by simp
  note inv = expand_col_fresh [OF Cons.prems(1) j step]
  show ?case
  proof (cases r1)
    case None
    with step Cons.prems(3) have "expand_cols js s1 = (r, s')" by simp
    with Cons.IH [of s1] inv Cons.prems(2) show ?thesis by simp
  next
    case (Some e)
    with step Cons.prems(3) inv show ?thesis by simp
  qed
qed

text \<open>
  Claim C10 says that neither \<^verbatim>\<open>access\<close> nor \<^verbatim>\<open>tablefy\<close> changes the structure
  it is given.  \<^verbatim>\<open>access\<close> stores nothing but into its own lists.  \<^verbatim>\<open>tablefy\<close>
  stores into its columns, and the column of an expression without a wildcard
  is not built by \<^verbatim>\<open>access\<close>: \<^verbatim>\<open>access('0:a', struct)\<close> returns the list object
  \<^verbatim>\<open>struct[0]['a']\<close> itself, and the expansion overwrites its entries.
\<close>

theorem tablefy_changes_struct_counterexample:
  "struct_after ''0:a''
     (PList (Some 0)
        [PDict [(KStr ''a'', PList (Some 1) [PList (Some 2) [PInt 1], PList (Some 3) [PInt 2]])]])
     True True
   = PList (Some 0)
       [PDict [(KStr ''a'', PList (Some 1)
          [PList None [PBool True, PBool False], PList None [PBool False, PBool True]])]]
   \<and> struct_after ''0:a''
     (PList (Some 0)
        [PDict [(KStr ''a'', PList (Some 1) [PList (Some 2) [PInt 1], PList (Some 3) [PInt 2]])]])
     True True
   \<noteq> PList (Some 0)
        [PDict [(KStr ''a'', PList (Some 1) [PList (Some 2) [PInt 1], PList (Some 3) [PInt 2]])]]
   \<and> tablefy ''0:a''
     (PList (Some 0)
        [PDict [(KStr ''a'', PList (Some 1) [PList (Some 2) [PInt 1], PList (Some 3) [PInt 2]])]])
     True True
   = Inr [PList None [PInt 1, PInt 2], PList None [PBool True, PBool False],
          PList None [PBool False, PBool True]]"
  by (simp add: run_defs)

text \<open>
  Claim C10, amended.  \<^verbatim>\<open>tablefy\<close> leaves the structure it is given as it was,
  whether it returns or raises, when \<^verbatim>\<open>expand_lists_to_bool\<close> is off or every
  expression has a wildcard segment, so that every column is a list built by
  \<^verbatim>\<open>access\<close>.
\<close>

theorem tablefy_keeps_struct:
  assumes "\<not> ex \<or> (\<forall>k \<in> set (keystrings_of ks). KStr [] \<in> set (key_sequence k))"
  shows "struct_after ks st ex fl = st"
proof (cases "access_each (keystrings_of ks) st")
  case (Inl e)
  then show ?thesis by (simp add: struct_after_def tablefy_run_def)
next
  case (Inr cols0)
  show ?thesis
  proof (cases "check_lens (hd cols0) cols0")
    case (Some e)
    with Inr show ?thesis by (simp add: struct_after_def tablefy_run_def)
  next
    case None
    obtain r s where stage: "expand_stage ex st cols0 = (r, s)"
      by (cases "expand_stage ex st cols0")
    have "struct s = st"
    proof (cases ex)
      case False
      with stage show ?thesis by (auto simp: expand_stage_def)
    next
      case True
      with assms have "\<forall>k \<in> set (keystrings_of ks). KStr [] \<in> set (key_sequence k)"
        by simp
      then have fresh: "\<forall>c \<in> set cols0. \<exists>items. c = PList None items"
        using access_each_fresh Inr by blast
      from True stage have "expand_cols [0..<length cols0]
          \<lparr>struct = st, cols = cols0, cols_expanded = []\<rparr> = (r, s)"
        by (simp add: expand_stage_def)
      from expand_cols_fresh [OF _ _ this] fresh show ?thesis by simp
    qed
    with Inr None stage show ?thesis
      by (cases r) (simp_all add: struct_after_def tablefy_run_def)
  qed
qed

theorem tablefy_keeps_struct_witness:
  "struct_after '':c, :c:0''
     (PList (Some 0)
        [PDict [(KStr ''c'', PList (Some 1) [PStr ''A'', PStr ''B''])],
         PDict [(KStr ''c'', PList (Some 2) [PStr ''B''])]])
     True True
   = PList (Some 0)
        [PDict [(KStr ''c'', PList (Some 1) [PStr ''A'', PStr ''B''])],
         PDict [(KStr ''c'', PList (Some 2) [PStr ''B''])]]
   \<and> tablefy '':c, :c:0''
     (PList (Some 0)
        [PDict [(KStr ''c'', PList (Some 1) [PStr ''A'', PStr ''B''])],
         PDict [(KStr ''c'', PList (Some 2) [PStr ''B''])]])
     True True
   = Inr [PList None [PStr ''A'', PStr ''B'', PStr ''c''],
          PList None [PBool True, PBool True, PStr ''A''],
          PList None [PBool False, PBool True, PStr ''B'']]"
proof -
  have wild: "\<not> True \<or> (\<forall>k \<in> set (keystrings_of '':c, :c:0''). KStr [] \<in> set (key_sequence k))"
    by (simp add: keystrings_of_def strip_def is_space_def parse_defs)
  show ?thesis
    using tablefy_keeps_struct [OF wild]
    by (simp add: run_defs)
qed

subsection \<open>Rows and cells\<close>

lemma length_store_at_each: "length (store_at_each a i v xs) = length xs"
  by (induction xs) auto

lemma length_store_at_dict: "length (store_at_dict a i v kvs) = length kvs"
  by (induction kvs) auto

lemma py_len_store_at: "py_len (store_at a i v c) = py_len c"
  by (cases c) (auto simp: length_store_at_each length_store_at_dict)

lemma py_len_store_at_each: "map py_len (store_at_each a i v cs) = map py_len cs"
  by (induction cs) (auto simp: py_len_store_at)

lemma set_item_lens:
  assumes "set_item j i v s = Inr s'"
  shows "map py_len (cols s') = map py_len (cols s)"
proof (cases "cols s ! j")
  case (PList t xs)
  show ?thesis
  proof (cases t)
    case None
    with PList assms have s': "cols s' = (cols s)[j := PList None (xs[i := v])]"
      by (auto simp: set_item_def)
    show ?thesis
    proof (cases "j < length (cols s)")
      case True
      have "map py_len ((cols s)[j := PList None (xs[i := v])])
            = (map py_len (cols s))[j := py_len (cols s ! j)]"
        using PList by (simp add: map_update)
      also have "\<dots> = map py_len (cols s)"
        using True by (simp add: list_update_same_conv)
      finally show ?thesis using s' by simp
    next
      case False
      then have "(cols s)[j := PList None (xs[i := v])] = cols s"
        by (simp add: list_update_beyond)
      with s' show ?thesis by simp
    qed
  next
    case (Some a)
    with PList assms show ?thesis
      by (auto simp: set_item_def py_len_store_at_each)
  qed
qed (use assms in \<open>auto simp: set_item_def\<close>)

lemma assign_loop_lens:
  "assign_loop j names is s = (r, s') \<Longrightarrow> map py_len (cols s') = map py_len (cols s)"
proof (induction "is" arbitrary: s)
  case Nil
  then show ?case by simp
next
  case (Cons i "is")
  show ?case
  proof (cases "contains_each (cols s ! j) i names")
    case (Inl e)
    with Cons.prems show ?thesis by simp
  next
    case (Inr bs)
    show ?thesis
    proof (cases "set_item j i (PList None (map PBool bs)) s")
      case (Inl e)
      with Inr Cons.prems show ?thesis by simp
    next
      case inr: (Inr s1)
      from Inr inr Cons.prems have "assign_loop j names is s1 = (r, s')"
        by simp
      with Cons.IH [of s1] set_item_lens [OF inr] show ?thesis
        by simp
    qed
  qed
qed

lemma expand_col_lens:
  assumes "expand_col j s = (r, s')"
  shows "map py_len (cols s') = map py_len (cols s)"
proof -
  have same: "cols (s\<lparr>cols_expanded := x\<rparr>) = cols s" for x
    by simp
  show ?thesis
    using assms assign_loop_lens [of j _ _ "s\<lparr>cols_expanded := x\<rparr>" r s' for x, unfolded same]
    by (auto simp: expand_col_def split: sum.splits if_splits)
qed

lemma expand_cols_lens:
  "expand_cols js s = (r, s') \<Longrightarrow> map py_len (cols s') = map py_len (cols s)"
proof (induction js arbitrary: s)
  case Nil
  then show ?case by simp
next
  case (Cons j js)
  obtain r1 s1 where step: "expand_col j s = (r1, s1)"
    by (cases "expand_col j s")
  show ?case
  proof (cases r1)
    case None
    with step Cons.prems have "expand_cols js s1 = (r, s')" by simp
    with Cons.IH [of s1] expand_col_lens [OF step] show ?thesis by simp
  next
    case (Some e)
    with step Cons.prems expand_col_lens [OF step] show ?thesis by simp
  qed
qed

lemma expand_stage_lens:
  "expand_stage ex st cols0 = (r, s) \<Longrightarrow> map py_len (cols s) = map py_len cols0"
  using expand_cols_lens [of "[0..<length cols0]" "\<lparr>struct = st, cols = cols0, cols_expanded = []\<rparr>" r s]
  by (auto simp: expand_stage_def split: if_splits)

lemma py_iter_len: "py_iter c = Inr xs \<Longrightarrow> py_len c = Inr (length xs)"
  by (cases c) (auto split: if_splits)

lemma py_iter_each_lens:
  "py_iter_each cs = Inr css \<Longrightarrow> map py_len cs = map (\<lambda>xs. Inr (length xs)) css"
  by (induction cs arbitrary: css) (auto split: sum.splits simp: py_iter_len)

lemma check_lens_equal:
  "check_lens c0 cs = None \<Longrightarrow> \<forall>c \<in> set cs. py_len c = Inr (len_of c0)"
  by (induction cs) (auto split: sum.splits if_splits simp: len_of_def)

lemma foldr_min_const: "\<forall>x \<in> set xs. x = n \<Longrightarrow> foldr min xs (n::nat) = n"
  by (induction xs) auto

lemma length_zip_cols:
  assumes "css \<noteq> []" and "\<forall>xs \<in> set css. length xs = n"
  shows "length (zip_cols css) = n"
proof -
  have "hd css \<in> set css" "set (tl css) \<subseteq> set css"
    using assms(1) by (auto dest: list.set_sel(2))
  then have "length (hd css) = n" "\<forall>x \<in> set (map length (tl css)). x = n"
    using assms(2) by auto
  then show ?thesis
    using assms(1) by (simp add: zip_cols_def foldr_min_const)
qed

lemma collect_items_fails:
  "x \<in> set entries \<Longrightarrow> py_iter x = Inl e \<Longrightarrow> \<exists>e'. collect_items entries = Inl e'"
  by (induction entries) (auto split: sum.splits)

lemma expand_col_scalar:
  assumes "\<forall>cells. py_iter (cols s ! j) = Inr cells \<longrightarrow> (\<forall>x \<in> set cells. \<not> has_iter x)"
    and "expand_col j s = (None, s')"
  shows "s' = s"
proof (cases "cols s ! j")
  case (PList t xs)
  with assms show ?thesis
    by (cases "xs = []") (auto simp: expand_col_def seq_index_def split: sum.splits if_splits)
next
  case (PTuple xs)
  with assms show ?thesis
    by (cases "xs = []") (auto simp: expand_col_def seq_index_def split: sum.splits if_splits)
next
  case (PStr x)
  with assms(2) show ?thesis
    by (auto simp: expand_col_def split: sum.splits if_splits)
next
  case (PDict kvs)
  show ?thesis
  proof (cases "map_of kvs (KInt 0)")
    case None
    with PDict assms(2) show ?thesis by (simp add: expand_col_def)
  next
    case (Some v)
    then have "PInt 0 \<in> set (map (\<lambda>kv. key_val (fst kv)) kvs)"
      by (force dest: map_of_SomeD)
    then have "\<exists>e'. collect_items (map (\<lambda>kv. key_val (fst kv)) kvs) = Inl e'"
      by (rule collect_items_fails) simp
    then have "\<exists>e'. bool_names_of (PDict kvs) = Inl e'"
      by (auto simp: bool_names_of_def)
    with PDict Some assms(2) show ?thesis
      by (auto simp: expand_col_def split: if_splits)
  qed
qed (use assms(2) in \<open>auto simp: expand_col_def\<close>)

lemma expand_cols_scalar:
  "\<forall>j \<in> set js. \<forall>cells. py_iter (cols s ! j) = Inr cells \<longrightarrow> (\<forall>x \<in> set cells. \<not> has_iter x) \<Longrightarrow>
   expand_cols js s = (None, s') \<Longrightarrow> s' = s"
proof (induction js)
  case Nil
  then show ?case by simp
next
  case (Cons j js)
  obtain r1 s1 where step: "expand_col j s = (r1, s1)"
    by (cases "expand_col j s")
  with Cons.prems(2) have r1: "r1 = None"
    by (cases r1) auto
  with step Cons.prems(1) have "s1 = s"
    using expand_col_scalar [of s j s1] by simp
  with step r1 Cons show ?thesis by simp
qed

lemma expand_stage_scalar:
  assumes "\<forall>c \<in> set cols0. \<forall>cells. py_iter c = Inr cells \<longrightarrow> (\<forall>x \<in> set cells. \<not> has_iter x)"
    and "expand_stage ex st cols0 = (None, s)"
  shows "s = \<lparr>struct = st, cols = cols0, cols_expanded = []\<rparr>"
proof (cases ex)
  case True
  let ?s0 = "\<lparr>struct = st, cols = cols0, cols_expanded = []\<rparr>"
  have "\<forall>j \<in> set [0..<length cols0]. \<forall>cells. py_iter (cols ?s0 ! j) = Inr cells
          \<longrightarrow> (\<forall>x \<in> set cells. \<not> has_iter x)"
  proof (intro ballI)
    fix j assume "j \<in> set [0..<length cols0]"
    then have "cols0 ! j \<in> set cols0" by simp
    with assms(1) show "\<forall>cells. py_iter (cols ?s0 ! j) = Inr cells
          \<longrightarrow> (\<forall>x \<in> set cells. \<not> has_iter x)"
      by simp
  qed
  from expand_cols_scalar [OF this] assms(2) True show ?thesis
    by (simp add: expand_stage_def)
next
  case False
  with assms(2) show ?thesis by (simp add: expand_stage_def)
qed

lemma prettify_each_strings:
  "prettify_each (map PStr ks) = Inr hdr \<Longrightarrow>
   length hdr = length ks \<and> (\<forall>h \<in> set hdr. \<not> has_iter h)"
  by (induction ks arbitrary: hdr) (auto split: sum.splits option.splits)

lemma concat_flatten_scalars:
  "\<forall>x \<in> set xs. \<not> has_iter x \<Longrightarrow> concat (map flatten_cell xs) = xs"
  by (induction xs) (auto simp: flatten_cell_def)

lemma foldr_min_le: "foldr min xs (n::nat) \<le> n \<and> (\<forall>x \<in> set xs. foldr min xs n \<le> x)"
  by (induction xs) (auto simp: min_le_iff_disj)

lemma zip_cols_row:
  assumes "row \<in> set (zip_cols css)"
  shows "\<exists>r. row = PTuple (map (\<lambda>c. c ! r) css) \<and> (\<forall>c \<in> set css. r < length c)"
proof -
  from assms have ne: "css \<noteq> []"
    by (auto simp: zip_cols_def)
  let ?m = "foldr min (map length (tl css)) (length (hd css))"
  from assms ne have "row \<in> (\<lambda>r. PTuple (map (\<lambda>c. c ! r) css)) ` {0..<?m}"
    by (simp add: zip_cols_def)
  then obtain r where r: "row = PTuple (map (\<lambda>c. c ! r) css)" "r \<in> {0..<?m}"
    by blast
  have "\<forall>c \<in> set css. ?m \<le> length c"
  proof
    fix c assume "c \<in> set css"
    with ne have "c = hd css \<or> c \<in> set (tl css)"
      by (cases css) auto
    then show "?m \<le> length c"
      using foldr_min_le [of "map length (tl css)" "length (hd css)"] by auto
  qed
  with r have "\<forall>c \<in> set css. r < length c"
    by fastforce
  with r(1) show ?thesis by blast
qed

lemma py_iter_each_rel:
  "py_iter_each cs = Inr css \<Longrightarrow> list_all2 (\<lambda>c xs. py_iter c = Inr xs) cs css"
  by (induction cs arbitrary: css) (auto split: sum.splits)

lemma use_key_each_length:
  "use_key_each ks xs = Inr vs \<Longrightarrow> length vs = length xs"
  by (induction xs arbitrary: vs) (auto split: sum.splits)

lemma use_key_wildcard_list_length:
  "use_key (KStr [] # ks) (PList t recs) = Inr v \<Longrightarrow> len_of v = length recs"
  by (auto split: sum.splits simp: len_of_def dest: use_key_each_length)

lemma access_each_hd:
  "access_each (k # ks) st = Inr cs \<Longrightarrow> access k st = Inr (hd cs)"
  by (auto split: sum.splits)

lemma tablefy_stages:
  assumes "tablefy ks st ex fl = Inr rows"
  obtains cols0 s where "access_each (keystrings_of ks) st = Inr cols0"
    and "check_lens (hd cols0) cols0 = None"
    and "expand_stage ex st cols0 = (None, s)"
    and "make_rows fl (keystrings_of ks) s = Inr rows"
proof (cases "access_each (keystrings_of ks) st")
  case (Inl e)
  with assms show ?thesis by (simp add: tablefy_def tablefy_run_def)
next
  case (Inr cols0)
  show ?thesis
  proof (cases "check_lens (hd cols0) cols0")
    case (Some e)
    with Inr assms show ?thesis by (simp add: tablefy_def tablefy_run_def)
  next
    case None
    obtain r s where stage: "expand_stage ex st cols0 = (r, s)"
      by (cases "expand_stage ex st cols0")
    with Inr None assms that show ?thesis
      by (cases r) (auto simp: tablefy_def tablefy_run_def)
  qed
qed

lemma make_rows_parts:
  assumes "make_rows fl keystrings s = Inr rows"
  obtains header css where
    "prettify_each (update_header (cols_expanded s) (map PStr keystrings)) = Inr header"
    and "py_iter_each (cols s) = Inr css"
    and "rows = (if fl then map flatten_row (PList None header # zip_cols css)
                 else PList None header # zip_cols css)"
  using assms by (auto simp: make_rows_def Let_def split: sum.splits)

text \<open>
  Claim C1 says that, with \<^verbatim>\<open>flatten_lists\<close> on, every row of the table has the
  same number of cells for any mix of scalar-valued and list-valued columns.
  A cell that is a list is spliced into its row, and its label stays one
  cell: three records and two expressions give rows of 2, 3, 2 and 1 cells.
  With \<^verbatim>\<open>expand_lists_to_bool\<close> on as well, a column whose first entry is
  \<^verbatim>\<open>None\<close> (the field is absent from the first record) is not expanded, and
  the rows have 2, 2, 3 and 2 cells.
\<close>

theorem flattened_rows_differ_counterexample:
  "tablefy '':a, :c''
     (PList (Some 0)
        [PDict [(KStr ''a'', PInt 1), (KStr ''c'', PList (Some 1) [PInt 1, PInt 2])],
         PDict [(KStr ''a'', PInt 2), (KStr ''c'', PList (Some 2) [PInt 3])],
         PDict [(KStr ''a'', PInt 3), (KStr ''c'', PList (Some 3) [])]])
     False True
   = Inr [PList None [PStr ''a'', PStr ''c''],
          PList None [PInt 1, PInt 1, PInt 2],
          PList None [PInt 2, PInt 3],
          PList None [PInt 3]]
   \<and> tablefy '':a, :c''
     (PList (Some 0)
        [PDict [(KStr ''a'', PInt 1)],
         PDict [(KStr ''a'', PInt 2), (KStr ''c'', PList (Some 1) [PInt 3, PInt 4])],
         PDict [(KStr ''a'', PInt 3)]])
     True True
   = Inr [PList None [PStr ''a'', PStr ''c''],
          PList None [PInt 1, PNone],
          PList None [PInt 2, PInt 3, PInt 4],
          PList None [PInt 3, PNone]]"
  by (simp add: run_defs)

text \<open>
  Claim C1, amended.  Whenever \<^verbatim>\<open>tablefy\<close> with \<^verbatim>\<open>flatten_lists\<close> on returns a
  table, the table is one header row followed by one row per entry of the
  columns, which all have the length of the first column; these are exactly
  \<open>n\<close> data rows when the structure is a list of \<open>n\<close> records and every expression
  starts with a wildcard.  When no cell of any column has \<^verbatim>\<open>__iter__\<close> (all
  cells are \<^verbatim>\<open>None\<close>, booleans, numbers or strings), every row, the header
  included, is a list with one cell per expression.
\<close>

theorem tablefy_rows_of_scalar_columns:
  assumes "tablefy ks st ex True = Inr rows"
  shows "\<exists>cols0. access_each (keystrings_of ks) st = Inr cols0
     \<and> length rows = Suc (len_of (hd cols0))
     \<and> ((\<exists>t recs. st = PList t recs \<and> length recs = n)
          \<and> (\<forall>k \<in> set (keystrings_of ks). \<exists>ks'. key_sequence k = KStr [] # ks')
          \<longrightarrow> length rows = Suc n)
     \<and> ((\<forall>c \<in> set cols0. \<forall>cells. py_iter c = Inr cells \<longrightarrow> (\<forall>x \<in> set cells. \<not> has_iter x))
          \<longrightarrow> (\<forall>row \<in> set rows. \<exists>cells. row = PList None cells
                  \<and> length cells = length (keystrings_of ks)))"
proof -
  from assms obtain cols0 s where cols0: "access_each (keystrings_of ks) st = Inr cols0"
    and check: "check_lens (hd cols0) cols0 = None"
    and stage: "expand_stage ex st cols0 = (None, s)"
    and make: "make_rows True (keystrings_of ks) s = Inr rows"
    by (rule tablefy_stages)
  from make obtain header css where
    header: "prettify_each (update_header (cols_expanded s) (map PStr (keystrings_of ks))) = Inr header"
    and css: "py_iter_each (cols s) = Inr css"
    and rows: "rows = map flatten_row (PList None header # zip_cols css)"
    by (rule make_rows_parts) simp
  have len_cols0: "length cols0 = length (keystrings_of ks)"
    using cols0 by (rule access_each_length)
  then have ne: "cols0 \<noteq> []"
    using keystrings_of_nonempty by auto
  have lens: "map (\<lambda>xs. Inr (length xs)) css = map py_len cols0"
    using py_iter_each_lens [OF css] expand_stage_lens [OF stage] by simp
  from arg_cong [OF this, of length] have len_css: "length css = length cols0"
    by simp
  have "\<forall>xs \<in> set css. length xs = len_of (hd cols0)"
  proof
    fix xs assume "xs \<in> set css"
    then obtain i where i: "i < length css" "css ! i = xs"
      by (auto simp: in_set_conv_nth)
    then have "map (\<lambda>xs. Inr (length xs)) css ! i = (Inr (length xs) :: error + nat)"
      by simp
    with lens i len_css have "py_len (cols0 ! i) = Inr (length xs)"
      by simp
    moreover have "cols0 ! i \<in> set cols0"
      using i len_css by simp
    ultimately show "length xs = len_of (hd cols0)"
      using check_lens_equal [OF check] by auto
  qed
  moreover have "css \<noteq> []"
    using ne len_css by auto
  ultimately have count: "length rows = Suc (len_of (hd cols0))"
    using rows by (simp add: length_zip_cols)
  have wild: "length rows = Suc n"
    if "(\<exists>t recs. st = PList t recs \<and> length recs = n)
        \<and> (\<forall>k \<in> set (keystrings_of ks). \<exists>ks'. key_sequence k = KStr [] # ks')"
  proof -
    obtain k ks' where k: "keystrings_of ks = k # ks'"
      using keystrings_of_nonempty by (cases "keystrings_of ks") auto
    with cols0 have "access_each (k # ks') st = Inr cols0"
      by simp
    then have "access k st = Inr (hd cols0)"
      by (rule access_each_hd)
    moreover from that k obtain kt where "key_sequence k = KStr [] # kt"
      by auto
    moreover from that obtain t recs where "st = PList t recs" "length recs = n"
      by blast
    ultimately have "use_key (KStr [] # kt) (PList t recs) = Inr (hd cols0)" "length recs = n"
      by (simp_all add: access_def)
    then have "len_of (hd cols0) = n"
      using use_key_wildcard_list_length by blast
    with count show ?thesis by simp
  qed
  have rect: "\<forall>row \<in> set rows. \<exists>cells. row = PList None cells
                  \<and> length cells = length (keystrings_of ks)"
    if scalar: "\<forall>c \<in> set cols0. \<forall>cells. py_iter c = Inr cells \<longrightarrow> (\<forall>x \<in> set cells. \<not> has_iter x)"
  proof -
    have s: "s = \<lparr>struct = st, cols = cols0, cols_expanded = []\<rparr>"
      using scalar stage by (rule expand_stage_scalar)
    with header have "prettify_each (map PStr (keystrings_of ks)) = Inr header"
      by simp
    then have hdr: "length header = length (keystrings_of ks)" "\<forall>h \<in> set header. \<not> has_iter h"
      using prettify_each_strings by blast+
    then have hrow: "flatten_row (PList None header) = PList None header"
      by (simp add: flatten_row_def concat_flatten_scalars)
    have rel: "list_all2 (\<lambda>c xs. py_iter c = Inr xs) cols0 css"
      using css s by (simp add: py_iter_each_rel)
    have cells: "\<forall>xs \<in> set css. \<forall>x \<in> set xs. \<not> has_iter x"
    proof
      fix xs assume "xs \<in> set css"
      then obtain i where i: "i < length css" "css ! i = xs"
        by (auto simp: in_set_conv_nth)
      with rel have "py_iter (cols0 ! i) = Inr xs" "cols0 ! i \<in> set cols0"
        by (auto simp: list_all2_conv_all_nth)
      then obtain c where "c \<in> set cols0" "py_iter c = Inr xs"
        by blast
      with scalar show "\<forall>x \<in> set xs. \<not> has_iter x" by blast
    qed
    have drow: "\<exists>cells. flatten_row row = PList None cells
                  \<and> length cells = length (keystrings_of ks)"
      if "row \<in> set (zip_cols css)" for row
    proof -
      from that obtain r where r: "row = PTuple (map (\<lambda>c. c ! r) css)"
        "\<forall>c \<in> set css. r < length c"
        using zip_cols_row by blast
      then have "\<forall>x \<in> set (map (\<lambda>c. c ! r) css). \<not> has_iter x"
        using cells by auto
      then have "concat (map flatten_cell (map (\<lambda>c. c ! r) css)) = map (\<lambda>c. c ! r) css"
        by (rule concat_flatten_scalars)
      then have "flatten_row row = PList None (map (\<lambda>c. c ! r) css)"
        unfolding r(1) flatten_row_def by (simp only: iter_items.simps)
      then show ?thesis
        using len_css len_cols0 by simp
    qed
    show ?thesis
    proof
      fix row assume "row \<in> set rows"
      then consider "row = flatten_row (PList None header)"
        | r0 where "r0 \<in> set (zip_cols css)" "row = flatten_row r0"
        unfolding rows by auto
      then show "\<exists>cells. row = PList None cells \<and> length cells = length (keystrings_of ks)"
      proof cases
        case 1
        with hrow hdr(1) show ?thesis by simp
      next
        case 2
        with drow show ?thesis by simp
      qed
    qed
  qed
  show ?thesis
  proof (intro exI [of _ cols0] conjI impI)
    show "access_each (keystrings_of ks) st = Inr cols0" by (rule cols0)
    show "length rows = Suc (len_of (hd cols0))" by (rule count)
  qed (use wild rect in blast)+
qed

theorem tablefy_rows_of_scalar_columns_witness:
  "tablefy '':a, :b:0''
     (PList (Some 0)
        [PDict [(KStr ''a'', PInt 1), (KStr ''b'', PTuple [PStr ''x'', PStr ''u''])],
         PDict [(KStr ''a'', PInt 2), (KStr ''b'', PTuple [PStr ''y'', PStr ''v''])],
         PDict [(KStr ''a'', PInt 3), (KStr ''b'', PTuple [])]])
     True True
   = Inr [PList None [PStr ''a'', PStr ''b''],
          PList None [PInt 1, PStr ''x''],
          PList None [PInt 2, PStr ''y''],
          PList None [PInt 3, PNone]]
   \<and> length [PList None [PStr ''a'', PStr ''b''],
          PList None [PInt 1, PStr ''x''],
          PList None [PInt 2, PStr ''y''],
          PList None [PInt 3, PNone]] = Suc 3
   \<and> list_all (\<lambda>row. \<exists>cells. row = PList None cells \<and> length cells = 2)
        [PList None [PStr ''a'', PStr ''b''],
          PList None [PInt 1, PStr ''x''],
          PList None [PInt 2, PStr ''y''],
          PList None [PInt 3, PNone]]"
proof -
  let ?st = "PList (Some 0)
        [PDict [(KStr ''a'', PInt 1), (KStr ''b'', PTuple [PStr ''x'', PStr ''u''])],
         PDict [(KStr ''a'', PInt 2), (KStr ''b'', PTuple [PStr ''y'', PStr ''v''])],
         PDict [(KStr ''a'', PInt 3), (KStr ''b'', PTuple [])]]"
  let ?rows = "[PList None [PStr ''a'', PStr ''b''],
          PList None [PInt 1, PStr ''x''],
          PList None [PInt 2, PStr ''y''],
          PList None [PInt 3, PNone]]"
  let ?cols = "[PList None [PInt 1, PInt 2, PInt 3], PList None [PStr ''x'', PStr ''y'', PNone]]"
  have run: "tablefy '':a, :b:0'' ?st True True = Inr ?rows"
    by (simp add: run_defs)
  have ks: "keystrings_of '':a, :b:0'' = ['':a'', '':b:0'']"
    by (simp add: keystrings_of_def strip_def is_space_def)
  have cols: "access_each (keystrings_of '':a, :b:0'') ?st = Inr ?cols"
    unfolding ks by (simp add: access_def parse_defs seq_index_def len_of_def)
  have wild: "(\<exists>t recs. ?st = PList t recs \<and> length recs = 3)
      \<and> (\<forall>k \<in> set (keystrings_of '':a, :b:0''). \<exists>ks'. key_sequence k = KStr [] # ks')"
    unfolding ks by (simp add: parse_defs)
  have scalar: "\<forall>c \<in> set ?cols. \<forall>cells. py_iter c = Inr cells
      \<longrightarrow> (\<forall>x \<in> set cells. \<not> has_iter x)"
    by auto
  from tablefy_rows_of_scalar_columns [OF run, of 3] cols wild scalar
  have "length ?rows = Suc 3"
    and "\<forall>row \<in> set ?rows. \<exists>cells. row = PList None cells
           \<and> length cells = length (keystrings_of '':a, :b:0'')"
    by auto
  with ks have "list_all (\<lambda>row. \<exists>cells. row = PList None cells \<and> length cells = 2) ?rows"
    by (simp add: list_all_iff)
  with run show ?thesis
    by simp
qed

subsection \<open>Equality and order of hashable values\<close>

lemma str_lt_irrefl: "\<not> str_lt s s"
  by (induction s) auto

lemma str_lt_trans: "str_lt s t \<Longrightarrow> str_lt t u \<Longrightarrow> str_lt s u"
proof (induction s t arbitrary: u rule: str_lt.induct)
  case (4 c s d t)
  then show ?case
    by (cases u) (auto split: if_splits)
qed (auto elim: str_lt.elims)

lemma of_char_nat_total:
  "c \<noteq> d \<Longrightarrow> \<not> (of_char c :: nat) < of_char d \<Longrightarrow> (of_char d :: nat) < of_char c"
  using of_char_eq_iff [of c d, where ?'a = nat] by linarith

lemma str_lt_total: "\<not> str_lt s t \<Longrightarrow> s \<noteq> t \<Longrightarrow> str_lt t s"
proof (induction s t rule: str_lt.induct)
  case (4 c s d t)
  then show ?case
    using of_char_nat_total [of c d] by (cases "c = d") auto
qed auto

lemma h_eq_list_iff: "h_eq_list xs ys \<longleftrightarrow> list_all2 h_eq xs ys"
  by (induction xs arbitrary: ys) (auto split: list.splits simp: list_all2_Cons1)


lemma h_eq_refl: "h_eq a a"
proof (induction a)
  case (HTuple xs)
  then have "list_all2 h_eq xs xs"
    by (simp add: list_all2_same)
  then show ?case by (simp add: h_eq_list_iff)
qed auto

lemma h_eq_sym: "h_eq a b \<Longrightarrow> h_eq b a"
proof (induction a arbitrary: b)
  case (HTuple xs)
  then obtain ys where b: "b = HTuple ys" and xy: "list_all2 h_eq xs ys"
    by (cases b) (auto simp: h_eq_list_iff)
  have "list_all2 h_eq ys xs"
    unfolding list_all2_conv_all_nth
  proof (intro conjI allI impI)
    show "length ys = length xs"
      using xy by (simp add: list_all2_lengthD)
    fix i assume "i < length ys"
    then have "xs ! i \<in> set xs" "h_eq (xs ! i) (ys ! i)"
      using xy by (simp_all add: list_all2_conv_all_nth)
    then show "h_eq (ys ! i) (xs ! i)"
      by (rule HTuple.IH)
  qed
  with b show ?case by (simp add: h_eq_list_iff)
next
  case (HBool x)
  then show ?case by (cases b) (auto split: if_splits)
next
  case (HInt x)
  then show ?case by (cases b) (auto split: if_splits)
qed auto

lemma h_eq_trans: "h_eq a b \<Longrightarrow> h_eq b c \<Longrightarrow> h_eq a c"
proof (induction a arbitrary: b c)
  case (HTuple xs)
  then obtain ys where b: "b = HTuple ys" and xy: "list_all2 h_eq xs ys"
    by (cases b) (auto simp: h_eq_list_iff)
  with HTuple.prems obtain zs where c: "c = HTuple zs" and yz: "list_all2 h_eq ys zs"
    by (cases c) (auto simp: h_eq_list_iff)
  have "list_all2 h_eq xs zs"
    unfolding list_all2_conv_all_nth
  proof (intro conjI allI impI)
    show "length xs = length zs"
      using xy yz by (simp add: list_all2_lengthD)
    fix i assume i: "i < length xs"
    then have "xs ! i \<in> set xs" "h_eq (xs ! i) (ys ! i)" "h_eq (ys ! i) (zs ! i)"
      using xy yz by (simp_all add: list_all2_conv_all_nth)
    then show "h_eq (xs ! i) (zs ! i)"
      by (rule HTuple.IH)
  qed
  with c show ?case by (simp add: h_eq_list_iff)
next
  case (HBool x)
  then show ?case by (cases b; cases c) (auto split: if_splits)
next
  case (HInt x)
  then show ?case by (cases b; cases c) (auto split: if_splits)
qed auto


lemma h_eq_same_kind:
  "h_eq b c \<Longrightarrow> h_rank b = h_rank c \<and> h_num b = h_num c \<and> (\<forall>t. b = HStr t \<longleftrightarrow> c = HStr t)
     \<and> (\<forall>ys. b = HTuple ys \<longrightarrow> (\<exists>zs. c = HTuple zs))"
  by (cases b; cases c) (auto split: if_splits)

lemma h_lt_list_irrefl:
  "\<forall>x \<in> set xs. \<forall>b. h_eq x b \<longrightarrow> \<not> h_lt x b \<Longrightarrow> h_eq_list xs ys \<Longrightarrow> \<not> h_lt_list xs ys"
  by (induction xs arbitrary: ys) (auto split: list.splits)

lemma h_lt_irrefl: "h_eq a b \<Longrightarrow> \<not> h_lt a b"
proof (induction a arbitrary: b)
  case (HTuple xs)
  then obtain ys where b: "b = HTuple ys" and "h_eq_list xs ys"
    by (cases b) auto
  with HTuple.IH have "\<not> h_lt_list xs ys"
    using h_lt_list_irrefl [of xs ys] by blast
  with b show ?case by simp
next
  case (HStr s)
  then show ?case by (simp add: str_lt_irrefl)
next
  case (HBool x)
  then show ?case by (cases b) (auto split: if_splits)
next
  case (HInt x)
  then show ?case by (cases b) (auto split: if_splits)
qed auto

lemma h_lt_list_cong_left:
  assumes "\<forall>x \<in> set xs. \<forall>b c. h_eq x b \<longrightarrow> h_lt x c = h_lt b c"
  shows "h_eq_list xs ys \<Longrightarrow> h_lt_list xs zs = h_lt_list ys zs"
  using assms
proof (induction xs arbitrary: ys zs)
  case Nil
  then show ?case by simp
next
  case (Cons x xs)
  from Cons.prems(1) obtain y ys' where ys: "ys = y # ys'" and xy: "h_eq x y"
    and rest: "h_eq_list xs ys'"
    by (cases ys) auto
  show ?case
  proof (cases zs)
    case Nil
    with ys show ?thesis by simp
  next
    case (Cons z zs')
    have eq: "h_eq x z \<longleftrightarrow> h_eq y z"
      using xy h_eq_sym h_eq_trans by blast
    have lt: "h_lt x z = h_lt y z"
      using Cons.prems(2) xy by simp
    have "h_lt_list xs zs' = h_lt_list ys' zs'"
      using Cons.IH [OF rest] Cons.prems(2) by simp
    with eq lt ys Cons show ?thesis by simp
  qed
qed

lemma h_lt_cong_left: "h_eq a b \<Longrightarrow> h_lt a c = h_lt b c"
proof (induction a arbitrary: b c)
  case (HTuple xs)
  then obtain ys where b: "b = HTuple ys" and xy: "h_eq_list xs ys"
    by (cases b) auto
  have "h_lt_list xs zs = h_lt_list ys zs" for zs
    using h_lt_list_cong_left [OF _ xy] HTuple.IH by blast
  with b show ?case by (cases c) auto
next
  case (HBool x)
  then show ?case by (cases b; cases c) (auto split: if_splits)
next
  case (HInt x)
  then show ?case by (cases b; cases c) (auto split: if_splits)
qed auto

lemma h_lt_list_cong_right:
  assumes "\<forall>x \<in> set xs. \<forall>b c. h_eq b c \<longrightarrow> h_lt x b = h_lt x c"
  shows "h_eq_list ys zs \<Longrightarrow> h_lt_list xs ys = h_lt_list xs zs"
  using assms
proof (induction xs arbitrary: ys zs)
  case Nil
  then show ?case by (cases ys) (auto split: list.splits)
next
  case (Cons x xs)
  show ?case
  proof (cases ys)
    case Nil
    with Cons.prems(1) show ?thesis by simp
  next
    case ys: (Cons y ys')
    with Cons.prems(1) obtain z zs' where zs: "zs = z # zs'" and yz: "h_eq y z"
      and rest: "h_eq_list ys' zs'"
      by (cases zs) auto
    have eq: "h_eq x y \<longleftrightarrow> h_eq x z"
      using yz h_eq_sym h_eq_trans by blast
    have lt: "h_lt x y = h_lt x z"
      using Cons.prems(2) yz by simp
    have "h_lt_list xs ys' = h_lt_list xs zs'"
      using Cons.IH [OF rest] Cons.prems(2) by simp
    with eq lt ys zs show ?thesis by simp
  qed
qed

lemma h_lt_cong_right: "h_eq b c \<Longrightarrow> h_lt a b = h_lt a c"
proof (induction a arbitrary: b c)
  case (HTuple xs)
  note kind = h_eq_same_kind [OF HTuple.prems]
  show ?case
  proof (cases b)
    case (HTuple ys)
    with kind obtain zs where c: "c = HTuple zs"
      by auto
    with HTuple HTuple.prems have "h_eq_list ys zs"
      by simp
    then have "h_lt_list xs ys = h_lt_list xs zs"
      using h_lt_list_cong_right [of xs ys zs] HTuple.IH by blast
    with HTuple c show ?thesis by simp
  qed (use HTuple.prems in \<open>cases c; auto split: if_splits\<close>)+
next
  case HNone
  then show ?case using h_eq_same_kind [of b c] by simp
next
  case (HStr s)
  then show ?case by (cases b; cases c) (auto split: if_splits)
next
  case (HBool x)
  then show ?case by (cases b; cases c) (auto split: if_splits)
next
  case (HInt x)
  then show ?case by (cases b; cases c) (auto split: if_splits)
qed


lemma h_lt_list_total:
  assumes "\<forall>x \<in> set xs. \<forall>b. \<not> h_lt x b \<longrightarrow> \<not> h_eq x b \<longrightarrow> h_lt b x"
  shows "\<not> h_lt_list xs ys \<Longrightarrow> \<not> h_eq_list xs ys \<Longrightarrow> h_lt_list ys xs"
  using assms
proof (induction xs arbitrary: ys)
  case Nil
  then show ?case by (cases ys) auto
next
  case (Cons x xs)
  show ?case
  proof (cases ys)
    case Nil
    then show ?thesis by simp
  next
    case ys: (Cons y ys')
    show ?thesis
    proof (cases "h_eq x y")
      case True
      then have "h_eq y x" by (rule h_eq_sym)
      moreover have "h_lt_list ys' xs"
        using Cons.IH [of ys'] Cons.prems True ys by simp
      ultimately show ?thesis using ys by simp
    next
      case False
      then have "\<not> h_eq y x"
        using h_eq_sym by blast
      moreover have "h_lt y x"
        using Cons.prems False ys by simp
      ultimately show ?thesis using ys by simp
    qed
  qed
qed

lemma h_lt_total: "\<not> h_lt a b \<Longrightarrow> \<not> h_eq a b \<Longrightarrow> h_lt b a"
proof (induction a arbitrary: b)
  case (HTuple xs)
  show ?case
  proof (cases b)
    case (HTuple ys)
    with HTuple.prems have "\<not> h_lt_list xs ys" "\<not> h_eq_list xs ys"
      by simp_all
    then have "h_lt_list ys xs"
      using h_lt_list_total [of xs ys] HTuple.IH by blast
    with HTuple show ?thesis by simp
  qed auto
next
  case HNone
  then show ?case by (cases b) auto
next
  case (HStr s)
  then show ?case using str_lt_total [of s] by (cases b) auto
next
  case (HBool x)
  then show ?case by (cases b) (auto split: if_splits)
next
  case (HInt x)
  then show ?case by (cases b) (auto split: if_splits)
qed

lemma h_lt_list_trans:
  assumes "\<forall>x \<in> set xs. \<forall>b c. h_lt x b \<longrightarrow> h_lt b c \<longrightarrow> h_lt x c"
  shows "h_lt_list xs ys \<Longrightarrow> h_lt_list ys zs \<Longrightarrow> h_lt_list xs zs"
  using assms
proof (induction xs arbitrary: ys zs)
  case Nil
  from Nil.prems(1,2) show ?case by (cases ys; cases zs) auto
next
  case (Cons x xs)
  from Cons.prems(1) obtain y ys' where ys: "ys = y # ys'"
    by (cases ys) auto
  with Cons.prems(2) obtain z zs' where zs: "zs = z # zs'"
    by (cases zs) auto
  have elem: "h_lt x b \<Longrightarrow> h_lt b c \<Longrightarrow> h_lt x c" for b c
    using Cons.prems(3) by (meson list.set_intros(1))
  have "\<forall>x \<in> set xs. \<forall>b c. h_lt x b \<longrightarrow> h_lt b c \<longrightarrow> h_lt x c"
    using Cons.prems(3) by (meson list.set_intros(2))
  then have rest: "h_lt_list xs ys' \<Longrightarrow> h_lt_list ys' zs' \<Longrightarrow> h_lt_list xs zs'"
    using Cons.IH [of ys' zs'] by blast
  show ?case
  proof (cases "h_eq x y")
    case xy: True
    show ?thesis
    proof (cases "h_eq y z")
      case True
      with xy have "h_eq x z" by (rule h_eq_trans)
      with xy True rest Cons.prems(1,2) ys zs show ?thesis by simp
    next
      case False
      with Cons.prems(2) ys zs have "h_lt y z" by simp
      with xy have "h_lt x z" by (simp add: h_lt_cong_left)
      moreover have "\<not> h_eq x z"
        using xy False h_eq_sym h_eq_trans by blast
      ultimately show ?thesis using zs by simp
    qed
  next
    case nxy: False
    with Cons.prems(1) ys have xy: "h_lt x y" by simp
    show ?thesis
    proof (cases "h_eq y z")
      case True
      with xy have "h_lt x z" using h_lt_cong_right by blast
      moreover have "\<not> h_eq x z"
        using nxy True h_eq_sym h_eq_trans by blast
      ultimately show ?thesis using zs by simp
    next
      case False
      with Cons.prems(2) ys zs have "h_lt y z" by simp
      with xy have "h_lt x z" by (rule elem)
      moreover from this have "\<not> h_eq x z"
        using h_lt_irrefl by blast
      ultimately show ?thesis using zs by simp
    qed
  qed
qed

lemma h_lt_trans: "h_lt a b \<Longrightarrow> h_lt b c \<Longrightarrow> h_lt a c"
proof (induction a arbitrary: b c)
  case (HTuple xs)
  from HTuple.prems(1) obtain ys where b: "b = HTuple ys" and xy: "h_lt_list xs ys"
    by (cases b) auto
  with HTuple.prems(2) obtain zs where c: "c = HTuple zs" and yz: "h_lt_list ys zs"
    by (cases c) auto
  have "h_lt_list xs zs"
    using h_lt_list_trans [OF _ xy yz] HTuple.IH by blast
  with c show ?case by simp
next
  case HNone
  then show ?case by (cases b; cases c) (auto split: if_splits)
next
  case (HStr s)
  then show ?case using str_lt_trans [of s] by (cases b; cases c) (auto split: if_splits)
next
  case (HBool x)
  then show ?case by (cases b; cases c) (auto split: if_splits)
next
  case (HInt x)
  then show ?case by (cases b; cases c) (auto split: if_splits)
qed


lemma h_member_iff: "h_member x ys \<longleftrightarrow> (\<exists>y \<in> set ys. h_eq x y)"
  by (induction ys) auto

lemma h_dedup_seen: "set seen \<subseteq> set (h_dedup seen xs)"
proof (induction xs arbitrary: seen)
  case Nil
  then show ?case by simp
next
  case (Cons x xs)
  have "set seen \<subseteq> set (seen @ [x])" by auto
  also have "\<dots> \<subseteq> set (h_dedup (seen @ [x]) xs)" by (rule Cons.IH)
  finally show ?case using Cons.IH [of seen] by simp
qed

lemma h_dedup_subset: "set (h_dedup seen xs) \<subseteq> set seen \<union> set xs"
proof (induction xs arbitrary: seen)
  case Nil
  then show ?case by simp
next
  case (Cons x xs)
  have "set (h_dedup (seen @ [x]) xs) \<subseteq> set (seen @ [x]) \<union> set xs"
    by (rule Cons.IH)
  then have "set (h_dedup (seen @ [x]) xs) \<subseteq> set seen \<union> set (x # xs)"
    by auto
  moreover have "set (h_dedup seen xs) \<subseteq> set seen \<union> set (x # xs)"
    using Cons.IH [of seen] by auto
  ultimately show ?case by simp
qed

lemma h_dedup_covers: "v \<in> set seen \<union> set xs \<Longrightarrow> \<exists>n \<in> set (h_dedup seen xs). h_eq v n"
proof (induction xs arbitrary: seen)
  case Nil
  then show ?case using h_eq_refl by auto
next
  case (Cons x xs)
  show ?case
  proof (cases "h_member x seen")
    case True
    show ?thesis
    proof (cases "v = x")
      case v: True
      from True obtain y where "y \<in> set seen" "h_eq x y"
        by (auto simp: h_member_iff)
      with v h_dedup_seen [of seen xs] True show ?thesis by auto
    next
      case False
      with Cons.prems have "v \<in> set seen \<union> set xs" by auto
      with Cons.IH [of seen] True show ?thesis by simp
    qed
  next
    case False
    from Cons.prems have "v \<in> set (seen @ [x]) \<union> set xs" by auto
    with Cons.IH [of "seen @ [x]"] False show ?thesis by simp
  qed
qed

lemma h_dedup_pairwise:
  "sorted_wrt (\<lambda>a b. \<not> h_eq a b) seen \<Longrightarrow> sorted_wrt (\<lambda>a b. \<not> h_eq a b) (h_dedup seen xs)"
proof (induction xs arbitrary: seen)
  case Nil
  then show ?case by simp
next
  case (Cons x xs)
  show ?case
  proof (cases "h_member x seen")
    case True
    with Cons show ?thesis by simp
  next
    case False
    then have "\<forall>y \<in> set seen. \<not> h_eq y x"
      using h_eq_sym by (auto simp: h_member_iff)
    with Cons.prems have "sorted_wrt (\<lambda>a b. \<not> h_eq a b) (seen @ [x])"
      by (simp add: sorted_wrt_append)
    with Cons.IH [of "seen @ [x]"] False show ?thesis by simp
  qed
qed

lemma set_h_insort: "set (h_insort x ys) = insert x (set ys)"
  by (induction ys) auto

lemma sorted_h_insort:
  "sorted_wrt h_lt ys \<Longrightarrow> \<forall>y \<in> set ys. \<not> h_eq x y \<Longrightarrow> sorted_wrt h_lt (h_insort x ys)"
proof (induction ys)
  case Nil
  then show ?case by simp
next
  case (Cons y ys)
  show ?case
  proof (cases "h_lt y x")
    case True
    with Cons show ?thesis by (auto simp: set_h_insort)
  next
    case False
    moreover from Cons.prems(2) have "\<not> h_eq y x"
      using h_eq_sym by auto
    ultimately have xy: "h_lt x y" by (rule h_lt_total)
    then have "\<forall>z \<in> set ys. h_lt x z"
      using Cons.prems(1) h_lt_trans by auto
    with xy False Cons.prems(1) show ?thesis by simp
  qed
qed

lemma set_h_sort: "set (h_sort xs) = set xs"
  by (induction xs) (auto simp: h_sort_def set_h_insort)

lemma length_h_insort: "length (h_insort x ys) = Suc (length ys)"
  by (induction ys) auto

lemma sorted_h_sort:
  "sorted_wrt (\<lambda>a b. \<not> h_eq a b) xs \<Longrightarrow> sorted_wrt h_lt (h_sort xs)"
proof (induction xs)
  case Nil
  then show ?case by (simp add: h_sort_def)
next
  case (Cons x xs)
  then have "sorted_wrt h_lt (h_sort xs)" "\<forall>y \<in> set (h_sort xs). \<not> h_eq x y"
    by (simp_all add: set_h_sort)
  then have "sorted_wrt h_lt (h_insort x (h_sort xs))"
    by (rule sorted_h_insort)
  then show ?case by (simp add: h_sort_def)
qed

lemma bool_names_sorted:
  "sorted_wrt h_lt (h_sort (h_dedup [] items))
   \<and> set (h_sort (h_dedup [] items)) \<subseteq> set items
   \<and> (\<forall>v \<in> set items. \<exists>n \<in> set (h_sort (h_dedup [] items)). h_eq v n)"
proof (intro conjI ballI)
  have "sorted_wrt (\<lambda>a b. \<not> h_eq a b) (h_dedup [] items)"
    by (rule h_dedup_pairwise) simp
  then show "sorted_wrt h_lt (h_sort (h_dedup [] items))"
    by (rule sorted_h_sort)
  show "set (h_sort (h_dedup [] items)) \<subseteq> set items"
    using h_dedup_subset [of "[]" items] by (simp add: set_h_sort)
  fix v assume "v \<in> set items"
  then show "\<exists>n \<in> set (h_sort (h_dedup [] items)). h_eq v n"
    using h_dedup_covers [of v "[]" items] by (simp add: set_h_sort)
qed

subsection \<open>Expanding a column\<close>

lemma seq_index_nat: "i < length xs \<Longrightarrow> seq_index xs (int i) = Inr (xs ! i)"
  by (simp add: seq_index_def)

lemma py_contains_iter:
  "has_iter e \<Longrightarrow> py_contains x e = Inr (py_eq_mem x (iter_items e))"
  by (cases e) auto

lemma contains_each_iter:
  "i < length xs \<Longrightarrow> has_iter (xs ! i) \<Longrightarrow>
   contains_each (PList t xs) i names
     = Inr (map (\<lambda>v. py_eq_mem (of_hval v) (iter_items (xs ! i))) names)"
  by (induction names) (simp_all add: seq_index_nat py_contains_iter)

lemma set_item_fresh_list:
  "cols s ! j = PList None xs \<Longrightarrow>
   set_item j i v s = Inr (s\<lparr>cols := (cols s)[j := PList None (xs[i := v])]\<rparr>)"
  by (simp add: set_item_def)

lemma assign_loop_fresh_list:
  assumes "j < length (cols s)" and "cols s ! j = PList None xs" and "k \<le> length xs"
    and "\<forall>i. k \<le> i \<and> i < length xs \<longrightarrow> has_iter (xs ! i)"
  shows "assign_loop j names [k..<length xs] s
         = (None, s\<lparr>cols := (cols s)[j := PList None (take k xs @ map (bool_row names) (drop k xs))]\<rparr>)"
  using assms
proof (induction "length xs - k" arbitrary: k s xs)
  case 0
  then have "k = length xs" by simp
  with 0 show ?case
    by (simp add: list_update_same_conv [THEN iffD2])
next
  case (Suc m)
  then have k: "k < length xs" by simp
  let ?v = "bool_row names (xs ! k)"
  let ?s1 = "s\<lparr>cols := (cols s)[j := PList None (xs[k := ?v])]\<rparr>"
  have upt: "[k..<length xs] = k # [Suc k..<length xs]"
    using k by (simp add: upt_conv_Cons)
  have cont: "contains_each (cols s ! j) k names
      = Inr (map (\<lambda>v. py_eq_mem (of_hval v) (iter_items (xs ! k))) names)"
    using Suc.prems(2,4) k by (simp add: contains_each_iter)
  have item: "set_item j k ?v s = Inr ?s1"
    using Suc.prems(2) by (rule set_item_fresh_list)
  have step: "assign_loop j names [k..<length xs] s
      = assign_loop j names [Suc k..<length (xs[k := ?v])] ?s1"
    using cont item unfolding upt by (simp add: bool_row_def comp_def)
  have ih: "assign_loop j names [Suc k..<length (xs[k := ?v])] ?s1
      = (None, ?s1\<lparr>cols := (cols ?s1)[j := PList None
            (take (Suc k) (xs[k := ?v]) @ map (bool_row names) (drop (Suc k) (xs[k := ?v])))]\<rparr>)"
  proof (rule Suc.hyps(1))
    show "m = length (xs[k := ?v]) - Suc k"
      using Suc.hyps(2) by simp
    show "j < length (cols ?s1)"
      using Suc.prems(1) by simp
    show "cols ?s1 ! j = PList None (xs[k := ?v])"
      using Suc.prems(1) by simp
    show "Suc k \<le> length (xs[k := ?v])"
      using k by simp
    show "\<forall>i. Suc k \<le> i \<and> i < length (xs[k := ?v]) \<longrightarrow> has_iter (xs[k := ?v] ! i)"
      using Suc.prems(4) by simp
  qed
  have "take (Suc k) (xs[k := ?v]) @ map (bool_row names) (drop (Suc k) (xs[k := ?v]))
      = take k xs @ map (bool_row names) (drop k xs)"
    using k by (simp add: take_Suc_conv_app_nth Cons_nth_drop_Suc [symmetric])
  with step ih show ?case
    by simp
qed

lemma index_from_none_equal:
  "k \<le> j \<Longrightarrow> j - k < length cs \<Longrightarrow> \<forall>i < j - k. \<not> py_eq (cs ! i) c \<Longrightarrow>
   index_from k cs j c = j"
proof (induction cs arbitrary: k)
  case Nil
  then show ?case by simp
next
  case (Cons x cs)
  show ?case
  proof (cases "k = j")
    case True
    then show ?thesis by simp
  next
    case False
    with Cons.prems have lt: "k < j" by simp
    then have "0 < j - k" by simp
    with Cons.prems(3) have "\<not> py_eq ((x # cs) ! 0) c" by blast
    then have "\<not> py_eq x c" by simp
    moreover have "index_from (Suc k) cs j c = j"
    proof (rule Cons.IH)
      show "Suc k \<le> j" using lt by simp
      show "j - Suc k < length cs" using Cons.prems(2) lt by auto
      show "\<forall>i < j - Suc k. \<not> py_eq (cs ! i) c"
      proof (intro allI impI)
        fix i assume "i < j - Suc k"
        then have "Suc i < j - k" by simp
        with Cons.prems(3) have "\<not> py_eq ((x # cs) ! Suc i) c" by blast
        then show "\<not> py_eq (cs ! i) c" by simp
      qed
    qed
    ultimately show ?thesis using False by simp
  qed
qed

lemma py_eq_has_iter: "py_eq a b \<Longrightarrow> has_iter a = has_iter b"
  by (cases a; cases b) (auto split: if_splits)

lemma py_eq_list_first:
  assumes "py_eq a (PList u entries)" and "entries \<noteq> []"
  shows "\<exists>t ys. a = PList t ys \<and> ys \<noteq> [] \<and> py_eq (ys ! 0) (entries ! 0)"
proof -
  from assms(1) obtain t ys where a: "a = PList t ys" and eq: "py_eq_list ys entries"
    by (cases a) (auto split: if_splits)
  from eq assms(2) obtain y ys' where "ys = y # ys'" "py_eq y (entries ! 0)"
    by (cases ys; cases entries) auto
  with a show ?thesis by simp
qed

lemma expand_col_skip:
  "py_getitem (cols s ! i) (KInt 0) = Inr first \<Longrightarrow> \<not> has_iter first \<Longrightarrow>
   expand_col i s = (None, s)"
  by (simp add: expand_col_def)

lemma expand_cols_skip:
  "\<forall>i \<in> set is. expand_col i s = (None, s) \<Longrightarrow> expand_cols is s = (None, s)"
  by (induction "is") auto

lemma expand_cols_append:
  "expand_cols (xs @ ys) s =
     (case expand_cols xs s of (None, s') \<Rightarrow> expand_cols ys s' | (Some e, s') \<Rightarrow> (Some e, s'))"
  by (induction xs arbitrary: s) (auto split: prod.splits option.splits)

lemma collect_items_iter:
  "collect_items entries = Inr items \<Longrightarrow> \<forall>e \<in> set entries. \<exists>xs. py_iter e = Inr xs"
  by (induction entries arbitrary: items) (auto split: sum.splits)

lemma expand_col_fresh_list:
  assumes "j < length (cols s)" and "cols s ! j = PList None entries" and "entries \<noteq> []"
    and "\<forall>e \<in> set entries. has_iter e" and "collect_items entries = Inr items"
    and "cols_index (cols s) j = j"
  shows "expand_col j s
     = (None, s\<lparr>cols := (cols s)[j := PList None (map (bool_row (h_sort (h_dedup [] items))) entries)],
               cols_expanded := cols_expanded s @ [(j, h_sort (h_dedup [] items))]\<rparr>)"
proof -
  let ?names = "h_sort (h_dedup [] items)"
  let ?s1 = "s\<lparr>cols_expanded := cols_expanded s @ [(j, ?names)]\<rparr>"
  have first: "py_getitem (cols s ! j) (KInt 0) = Inr (entries ! 0)"
    using assms(2,3) seq_index_nat [of 0 entries] by simp
  have "has_iter (entries ! 0)"
    using assms(3,4) by simp
  moreover have "bool_names_of (cols s ! j) = Inr ?names"
    using assms(2,5) by (simp add: bool_names_of_def)
  moreover have "len_of (cols s ! j) = length entries"
    using assms(2) by (simp add: len_of_def)
  ultimately have "expand_col j s = assign_loop j ?names [0..<length entries] ?s1"
    using first assms(6) by (simp add: expand_col_def)
  also have "\<dots> = (None, ?s1\<lparr>cols := (cols ?s1)[j := PList None
        (take 0 entries @ map (bool_row ?names) (drop 0 entries))]\<rparr>)"
  proof (rule assign_loop_fresh_list)
    show "j < length (cols ?s1)" using assms(1) by simp
    show "cols ?s1 ! j = PList None entries" using assms(2) by simp
    show "0 \<le> length entries" by simp
    show "\<forall>i. 0 \<le> i \<and> i < length entries \<longrightarrow> has_iter (entries ! i)"
      using assms(4) by simp
  qed
  finally show ?thesis by simp
qed

lemma prettify_each_rel:
  "prettify_each hs = Inr header \<Longrightarrow> list_all2 (\<lambda>h l. prettify h = Inr l) hs header"
  by (induction hs arbitrary: header) (auto split: sum.splits)

lemma prettify_each_succeeds:
  "\<forall>h \<in> set hs. \<exists>l. prettify h = Inr l \<Longrightarrow> \<exists>header. prettify_each hs = Inr header"
  by (induction hs) (auto split: sum.splits)

lemma prettify_letter:
  "list_ex is_alpha h \<Longrightarrow> \<exists>l. prettify (PStr h) = Inr l"
  using search_alpha_None [of h] by (cases "search_alpha h") auto

lemma py_len_iter: "py_len c = Inr n \<Longrightarrow> \<exists>xs. py_iter c = Inr xs"
  by (cases c) auto

lemma py_iter_each_succeeds:
  "\<forall>c \<in> set cs. \<exists>xs. py_iter c = Inr xs \<Longrightarrow> \<exists>css. py_iter_each cs = Inr css"
  by (induction cs) (auto split: sum.splits)

lemma zip_cols_nth:
  assumes "css \<noteq> []" and "\<forall>xs \<in> set css. length xs = n" and "r < n"
  shows "zip_cols css ! r = PTuple (map (\<lambda>c. c ! r) css)"
proof -
  have "hd css \<in> set css" "set (tl css) \<subseteq> set css"
    using assms(1) by (auto dest: list.set_sel(2))
  then have "length (hd css) = n" "\<forall>x \<in> set (map length (tl css)). x = n"
    using assms(2) by auto
  then have "foldr min (map length (tl css)) (length (hd css)) = n"
    by (simp add: foldr_min_const)
  then show ?thesis
    using assms(1,3) by (simp add: zip_cols_def)
qed

lemma tablefy_from_stages:
  "access_each (keystrings_of ks) st = Inr cols0 \<Longrightarrow> check_lens (hd cols0) cols0 = None \<Longrightarrow>
   expand_stage ex st cols0 = (None, s) \<Longrightarrow>
   tablefy ks st ex fl = make_rows fl (keystrings_of ks) s"
  by (simp add: tablefy_def tablefy_run_def)

lemma expand_stage_one_column:
  assumes j: "j < length cols0" and colj: "cols0 ! j = PList None entries"
    and ne: "entries \<noteq> []" and iter: "\<forall>e \<in> set entries. has_iter e"
    and items: "collect_items entries = Inr items"
    and others: "\<forall>i < length cols0. i \<noteq> j \<longrightarrow>
        (\<exists>first. py_getitem (cols0 ! i) (KInt 0) = Inr first \<and> \<not> has_iter first)"
  shows "expand_stage True st cols0
     = (None, \<lparr>struct = st,
          cols = cols0[j := PList None (map (bool_row (h_sort (h_dedup [] items))) entries)],
          cols_expanded = [(j, h_sort (h_dedup [] items))]\<rparr>)"
proof -
  let ?names = "h_sort (h_dedup [] items)"
  let ?s0 = "\<lparr>struct = st, cols = cols0, cols_expanded = []\<rparr>"
  let ?s1 = "\<lparr>struct = st, cols = cols0[j := PList None (map (bool_row ?names) entries)],
          cols_expanded = [(j, ?names)]\<rparr>"
  have skip: "expand_col i s = (None, s)" if "i < length cols0" "i \<noteq> j" "cols s ! i = cols0 ! i"
    for i s
  proof -
    from others that(1,2) obtain first where
      "py_getitem (cols0 ! i) (KInt 0) = Inr first" "\<not> has_iter first"
      by blast
    with that(3) show ?thesis
      using expand_col_skip [of s i first] by simp
  qed
  have no_equal: "\<not> py_eq (cols0 ! i) (cols0 ! j)" if "i < j" for i
  proof
    assume "py_eq (cols0 ! i) (cols0 ! j)"
    with colj ne obtain t ys where ys: "cols0 ! i = PList t ys" "ys \<noteq> []"
      "py_eq (ys ! 0) (entries ! 0)"
      using py_eq_list_first [of "cols0 ! i" None entries] by auto
    from that j others obtain first where
      first: "py_getitem (cols0 ! i) (KInt 0) = Inr first" "\<not> has_iter first"
      by (metis less_trans nat_neq_iff)
    from ys(1,2) have "py_getitem (cols0 ! i) (KInt 0) = Inr (ys ! 0)"
      using seq_index_nat [of 0 ys] by simp
    with first have "\<not> has_iter (ys ! 0)" by simp
    moreover have "has_iter (entries ! 0)"
      using ne iter by simp
    ultimately show False
      using py_eq_has_iter [OF ys(3)] by simp
  qed
  have index: "cols_index (cols ?s0) j = j"
    unfolding cols_index_def
  proof (rule index_from_none_equal)
    show "0 \<le> j" by simp
    show "j - 0 < length (cols ?s0)" using j by simp
    show "\<forall>i < j - 0. \<not> py_eq (cols ?s0 ! i) (cols ?s0 ! j)"
      using no_equal by simp
  qed
  have split: "[0..<length cols0] = [0..<j] @ [j] @ [Suc j..<length cols0]"
    using j by (metis append_Cons append_Nil le0 less_imp_le_nat upt_add_eq_append
        le_add_diff_inverse upt_conv_Cons)
  have pre: "expand_cols [0..<j] ?s0 = (None, ?s0)"
  proof (rule expand_cols_skip, rule ballI)
    fix i assume "i \<in> set [0..<j]"
    then have "i < length cols0" "i \<noteq> j" using j by auto
    then show "expand_col i ?s0 = (None, ?s0)"
      by (rule skip) simp
  qed
  have at_j: "expand_col j ?s0 = (None, ?s1)"
    using expand_col_fresh_list [of j ?s0 entries items] j colj ne iter items index
    by simp
  have post: "expand_cols [Suc j..<length cols0] ?s1 = (None, ?s1)"
  proof (rule expand_cols_skip, rule ballI)
    fix i assume "i \<in> set [Suc j..<length cols0]"
    then have i: "i < length cols0" "i \<noteq> j" by auto
    then have "cols ?s1 ! i = cols0 ! i" by simp
    with i show "expand_col i ?s1 = (None, ?s1)"
      by (rule skip)
  qed
  have "expand_cols [0..<length cols0] ?s0 = (None, ?s1)"
    unfolding split using pre at_j post by (simp add: expand_cols_append)
  then show ?thesis
    by (simp add: expand_stage_def)
qed

lemma of_hval_py_hashable:
  "py_hashable v = Inr h \<Longrightarrow> of_hval h = v"
  "py_hashable_each xs = Inr hs \<Longrightarrow> map of_hval hs = xs"
  by (induction v and xs arbitrary: h and hs rule: py_hashable_py_hashable_each.induct)
     (auto split: sum.splits)

lemma collect_items_values:
  "collect_items entries = Inr items \<Longrightarrow> \<forall>e \<in> set entries. has_iter e \<Longrightarrow>
   map of_hval items = concat (map iter_items entries)"
proof (induction entries arbitrary: items)
  case Nil
  then show ?case by simp
next
  case (Cons e entries)
  from Cons.prems(2) have it: "py_iter e = Inr (iter_items e)"
    by (cases e) auto
  with Cons.prems(1) obtain hs hs' where hs: "py_hashable_each (iter_items e) = Inr hs"
    and rest: "collect_items entries = Inr hs'" and items: "items = hs @ hs'"
    by (auto split: sum.splits)
  from hs have "map of_hval hs = iter_items e"
    by (rule of_hval_py_hashable(2))
  moreover from Cons.IH [OF rest] Cons.prems(2)
  have "map of_hval hs' = concat (map iter_items entries)"
    by simp
  ultimately show ?case using items by simp
qed

lemma py_eq_list_of_hval:
  assumes "\<forall>x \<in> set xs. \<forall>b. py_eq (of_hval x) (of_hval b) = h_eq x b"
  shows "py_eq_list (map of_hval xs) (map of_hval ys) = h_eq_list xs ys"
  using assms
proof (induction xs arbitrary: ys)
  case Nil
  then show ?case by (cases ys) auto
next
  case (Cons x xs)
  have "py_eq (of_hval x) (of_hval b) = h_eq x b" for b
    using Cons.prems by (meson list.set_intros(1))
  moreover have "py_eq_list (map of_hval xs) (map of_hval ys') = h_eq_list xs ys'" for ys'
    using Cons.IH [of ys'] Cons.prems by (meson list.set_intros(2))
  ultimately show ?case by (cases ys) auto
qed

lemma py_eq_of_hval: "py_eq (of_hval a) (of_hval b) = h_eq a b"
proof (induction a arbitrary: b)
  case (HTuple xs)
  then have "py_eq_list (map of_hval xs) (map of_hval ys) = h_eq_list xs ys" for ys
    using py_eq_list_of_hval [of xs ys] by blast
  then show ?case by (cases b) auto
next
  case HNone
  then show ?case by (cases b) auto
next
  case (HBool x)
  then show ?case by (cases b) auto
next
  case (HInt x)
  then show ?case by (cases b) auto
next
  case (HStr x)
  then show ?case by (cases b) auto
qed

text \<open>
  Claim C7 says that, with \<^verbatim>\<open>expand_lists_to_bool\<close> on, every column whose first
  entry has \<^verbatim>\<open>__iter__\<close> is replaced by boolean columns.  The code looks at the
  first entry only and then iterates over every entry: when a later record
  lacks the field, its entry is \<^verbatim>\<open>None\<close> and building \<^verbatim>\<open>bool_names\<close> raises
  \<^verbatim>\<open>TypeError\<close>.
\<close>

theorem expansion_needs_all_entries_counterexample:
  "access '':c''
     (PList (Some 0) [PDict [(KStr ''c'', PList (Some 1) [PStr ''A'', PStr ''B''])], PDict []])
   = Inr (PList None [PList (Some 1) [PStr ''A'', PStr ''B''], PNone])
   \<and> has_iter (PList (Some 1) [PStr ''A'', PStr ''B''])
   \<and> tablefy '':c''
     (PList (Some 0) [PDict [(KStr ''c'', PList (Some 1) [PStr ''A'', PStr ''B''])], PDict []])
     True False
   = Inl TypeError"
  by (simp add: run_defs)

text \<open>
  Claim C7, amended.  Let \<^verbatim>\<open>expand_lists_to_bool\<close> be on and the columns pass
  the length check.  Let column \<open>j\<close> be a non-empty list built by \<^verbatim>\<open>access\<close>, all of
  whose entries have \<^verbatim>\<open>__iter__\<close> and hold hashable items, so that \<^verbatim>\<open>bool_names\<close>
  is computed; let the first entry of every other column have no \<^verbatim>\<open>__iter__\<close> and
  every other expression have a letter.  Then \<^verbatim>\<open>tablefy\<close> returns a table (the
  rows below, flattened if \<^verbatim>\<open>flatten_lists\<close> is on) in which the header holds the
  names at position \<open>j\<close>, and the row of record \<open>r\<close> holds at position \<open>j\<close> one
  boolean per name, the membership of the name in the entry of record \<open>r\<close>.  The
  names are strictly increasing in the order of Python 2, each of them is an
  item of some entry, and every item of every entry is equal to one of them.
\<close>

theorem expansion_of_list_column:
  assumes cols0: "access_each (keystrings_of ks) st = Inr cols0"
    and check: "check_lens (hd cols0) cols0 = None"
    and j: "j < length cols0" and colj: "cols0 ! j = PList None entries"
    and ne: "entries \<noteq> []" and iter: "\<forall>e \<in> set entries. has_iter e"
    and names: "bool_names_of (cols0 ! j) = Inr names"
    and others: "\<forall>i < length cols0. i \<noteq> j \<longrightarrow>
        (\<exists>first. py_getitem (cols0 ! i) (KInt 0) = Inr first \<and> \<not> has_iter first)"
    and labels: "\<forall>i < length cols0. i \<noteq> j \<longrightarrow> list_ex is_alpha (keystrings_of ks ! i)"
  shows "\<exists>header data.
      tablefy ks st True fl
        = Inr (if fl then map flatten_row (PList None header # data)
               else PList None header # data)
      \<and> length header = length cols0
      \<and> header ! j = PList None (map of_hval names)
      \<and> length data = length entries
      \<and> (\<forall>r < length entries. \<exists>cells. data ! r = PTuple cells
            \<and> length cells = length cols0
            \<and> cells ! j = PList None
                 (map (\<lambda>v. PBool (py_eq_mem (of_hval v) (iter_items (entries ! r)))) names))
      \<and> sorted_wrt h_lt names
      \<and> (\<forall>n \<in> set names. \<exists>e \<in> set entries. of_hval n \<in> set (iter_items e))
      \<and> (\<forall>e \<in> set entries. \<forall>x \<in> set (iter_items e). \<exists>n \<in> set names. py_eq x (of_hval n))"
proof -
  from names colj obtain items where items: "collect_items entries = Inr items"
    and names_def: "names = h_sort (h_dedup [] items)"
    by (auto simp: bool_names_of_def split: sum.splits)
  let ?colj = "PList None (map (bool_row names) entries)"
  let ?s1 = "\<lparr>struct = st, cols = cols0[j := ?colj], cols_expanded = [(j, names)]\<rparr>"
  have stage: "expand_stage True st cols0 = (None, ?s1)"
    using expand_stage_one_column [OF j colj ne iter items others] names_def by simp
  have run: "tablefy ks st True fl = make_rows fl (keystrings_of ks) ?s1"
    using cols0 check stage by (rule tablefy_from_stages)
  have len_ks: "length (keystrings_of ks) = length cols0"
    using access_each_length [OF cols0] by simp
  \<comment> \<open>the header\<close>
  let ?hdr0 = "(map PStr (keystrings_of ks))[j := PList None (map of_hval names)]"
  have hdr0: "update_header (cols_expanded ?s1) (map PStr (keystrings_of ks)) = ?hdr0"
    by simp
  have "\<forall>h \<in> set ?hdr0. \<exists>l. prettify h = Inr l"
  proof
    fix h assume "h \<in> set ?hdr0"
    then obtain i where i: "i < length ?hdr0" "h = ?hdr0 ! i"
      by (auto simp: in_set_conv_nth)
    show "\<exists>l. prettify h = Inr l"
    proof (cases "i = j")
      case True
      with i show ?thesis by simp
    next
      case False
      with i len_ks have "h = PStr (keystrings_of ks ! i)" "list_ex is_alpha (keystrings_of ks ! i)"
        using labels by simp_all
      then show ?thesis using prettify_letter by simp
    qed
  qed
  then obtain header where header: "prettify_each ?hdr0 = Inr header"
    using prettify_each_succeeds by blast
  then have hrel: "list_all2 (\<lambda>h l. prettify h = Inr l) ?hdr0 header"
    by (rule prettify_each_rel)
  then have len_header: "length header = length cols0"
    using len_ks by (auto dest: list_all2_lengthD)
  have "j < length ?hdr0"
    using j len_ks by simp
  with hrel have "prettify (?hdr0 ! j) = Inr (header ! j)"
    by (rule list_all2_nthD)
  then have header_j: "header ! j = PList None (map of_hval names)"
    using j len_ks by simp
  \<comment> \<open>the rows\<close>
  have sized: "\<forall>c \<in> set cols0. py_len c = Inr (length entries)"
  proof -
    have "cols0 ! j \<in> set cols0" using j by simp
    then have "py_len (cols0 ! j) = Inr (len_of (hd cols0))"
      using check_lens_equal [OF check] by blast
    with colj have "len_of (hd cols0) = length entries" by simp
    then show ?thesis using check_lens_equal [OF check] by simp
  qed
  have "\<forall>c \<in> set (cols ?s1). \<exists>xs. py_iter c = Inr xs"
  proof
    fix c assume "c \<in> set (cols ?s1)"
    then have "c = ?colj \<or> c \<in> set cols0"
      using set_update_subset_insert [of cols0 j ?colj] by auto
    then show "\<exists>xs. py_iter c = Inr xs"
      using sized py_len_iter by auto
  qed
  then obtain css where css: "py_iter_each (cols ?s1) = Inr css"
    using py_iter_each_succeeds by blast
  then have crel: "list_all2 (\<lambda>c xs. py_iter c = Inr xs) (cols ?s1) css"
    by (rule py_iter_each_rel)
  then have len_css: "length css = length cols0"
    by (auto dest: list_all2_lengthD)
  have css_j: "css ! j = map (bool_row names) entries"
  proof -
    have "j < length (cols ?s1)"
      using j by simp
    with crel have "py_iter (cols ?s1 ! j) = Inr (css ! j)"
      by (rule list_all2_nthD)
    then show ?thesis using j by simp
  qed
  have css_len: "\<forall>xs \<in> set css. length xs = length entries"
  proof
    fix xs assume "xs \<in> set css"
    then obtain i where i: "i < length css" "xs = css ! i"
      by (auto simp: in_set_conv_nth)
    with crel have it: "py_iter (cols ?s1 ! i) = Inr xs"
      using list_all2_nthD2 by blast
    show "length xs = length entries"
    proof (cases "i = j")
      case True
      with i css_j show ?thesis by simp
    next
      case False
      with i len_css have "cols ?s1 ! i = cols0 ! i" "cols0 ! i \<in> set cols0"
        by simp_all
      with it sized show ?thesis
        using py_iter_len [of "cols0 ! i" xs] by simp
    qed
  qed
  have css_ne: "css \<noteq> []"
    using len_css j by auto
  let ?data = "zip_cols css"
  have len_data: "length ?data = length entries"
    using css_ne css_len by (rule length_zip_cols)
  have rows: "\<forall>r < length entries. \<exists>cells. ?data ! r = PTuple cells
            \<and> length cells = length cols0
            \<and> cells ! j = PList None
                 (map (\<lambda>v. PBool (py_eq_mem (of_hval v) (iter_items (entries ! r)))) names)"
  proof (intro allI impI)
    fix r assume r: "r < length entries"
    have "?data ! r = PTuple (map (\<lambda>c. c ! r) css)"
      using css_ne css_len r by (rule zip_cols_nth)
    moreover have "map (\<lambda>c. c ! r) css ! j = bool_row names (entries ! r)"
      using j len_css css_j r by simp
    ultimately show "\<exists>cells. ?data ! r = PTuple cells
            \<and> length cells = length cols0
            \<and> cells ! j = PList None
                 (map (\<lambda>v. PBool (py_eq_mem (of_hval v) (iter_items (entries ! r)))) names)"
      using len_css by (simp add: bool_row_def)
  qed
  have result: "tablefy ks st True fl
        = Inr (if fl then map flatten_row (PList None header # ?data)
               else PList None header # ?data)"
    unfolding run make_rows_def hdr0 header css by (simp add: Let_def)
  \<comment> \<open>the names\<close>
  note sorted = bool_names_sorted [of items, folded names_def]
  have vals: "map of_hval items = concat (map iter_items entries)"
    using items iter by (rule collect_items_values)
  have from_entries: "\<forall>n \<in> set names. \<exists>e \<in> set entries. of_hval n \<in> set (iter_items e)"
  proof
    fix n assume "n \<in> set names"
    with sorted have "n \<in> set items" by blast
    then have "of_hval n \<in> set (map of_hval items)" by simp
    with vals show "\<exists>e \<in> set entries. of_hval n \<in> set (iter_items e)"
      by auto
  qed
  have covers: "\<forall>e \<in> set entries. \<forall>x \<in> set (iter_items e). \<exists>n \<in> set names. py_eq x (of_hval n)"
  proof (intro ballI)
    fix e x assume "e \<in> set entries" "x \<in> set (iter_items e)"
    then have "x \<in> set (map of_hval items)"
      unfolding vals by auto
    then obtain v where v: "v \<in> set items" "x = of_hval v"
      by auto
    with sorted obtain n where "n \<in> set names" "h_eq v n"
      by blast
    with v show "\<exists>n \<in> set names. py_eq x (of_hval n)"
      using py_eq_of_hval by blast
  qed
  from result len_header header_j len_data rows sorted from_entries covers
  show ?thesis
    by blast
qed

theorem expansion_of_list_column_witness:
  "tablefy '':serial, :c''
     (PList (Some 0)
        [PDict [(KStr ''serial'', PStr ''s1''), (KStr ''c'', PSet [PStr ''B'', PStr ''A''])],
         PDict [(KStr ''serial'', PStr ''s2''), (KStr ''c'', PSet [PStr ''B''])]])
     True False
   = Inr [PList None [PStr ''serial'', PList None [PStr ''A'', PStr ''B'']],
          PTuple [PStr ''s1'', PList None [PBool True, PBool True]],
          PTuple [PStr ''s2'', PList None [PBool False, PBool True]]]
   \<and> sorted_wrt h_lt [HStr ''A'', HStr ''B'']"
proof -
  let ?st = "PList (Some 0)
        [PDict [(KStr ''serial'', PStr ''s1''), (KStr ''c'', PSet [PStr ''B'', PStr ''A''])],
         PDict [(KStr ''serial'', PStr ''s2''), (KStr ''c'', PSet [PStr ''B''])]]"
  let ?entries = "[PSet [PStr ''B'', PStr ''A''], PSet [PStr ''B'']]"
  let ?cols = "[PList None [PStr ''s1'', PStr ''s2''], PList None ?entries]"
  have ks: "keystrings_of '':serial, :c'' = ['':serial'', '':c'']"
    by (simp add: keystrings_of_def strip_def is_space_def)
  have cols: "access_each (keystrings_of '':serial, :c'') ?st = Inr ?cols"
    unfolding ks by (simp add: access_def parse_defs len_of_def)
  have check: "check_lens (hd ?cols) ?cols = None"
    by simp
  have j: "1 < length ?cols"
    by simp
  have colj: "?cols ! 1 = PList None ?entries"
    by simp
  have ne: "?entries \<noteq> []"
    by simp
  have iter: "\<forall>e \<in> set ?entries. has_iter e"
    by simp
  have names: "bool_names_of (?cols ! 1) = Inr [HStr ''A'', HStr ''B'']"
    by (simp add: bool_names_of_def h_sort_def)
  have others: "\<forall>i < length ?cols. i \<noteq> 1 \<longrightarrow>
        (\<exists>first. py_getitem (?cols ! i) (KInt 0) = Inr first \<and> \<not> has_iter first)"
  proof (intro allI impI)
    fix i :: nat
    assume "i < length ?cols" "i \<noteq> 1"
    then have "i = 0" by simp
    then show "\<exists>first. py_getitem (?cols ! i) (KInt 0) = Inr first \<and> \<not> has_iter first"
      by (simp add: seq_index_def)
  qed
  have labels: "\<forall>i < length ?cols. i \<noteq> 1 \<longrightarrow>
        list_ex is_alpha (keystrings_of '':serial, :c'' ! i)"
  proof (intro allI impI)
    fix i :: nat
    assume "i < length ?cols" "i \<noteq> 1"
    then have "i = 0" by simp
    then show "list_ex is_alpha (keystrings_of '':serial, :c'' ! i)"
      unfolding ks by (simp add: is_alpha_def)
  qed
  have run: "tablefy '':serial, :c'' ?st True False
      = Inr [PList None [PStr ''serial'', PList None [PStr ''A'', PStr ''B'']],
          PTuple [PStr ''s1'', PList None [PBool True, PBool True]],
          PTuple [PStr ''s2'', PList None [PBool False, PBool True]]]"
    by (simp add: run_defs)
  from expansion_of_list_column [OF cols check j colj ne iter names others labels, of False]
  have "sorted_wrt h_lt [HStr ''A'', HStr ''B'']"
    by blast
  with run show ?thesis
    by simp
qed

end
